theory Spec2Isabelle
  imports Main "HOL-Library.Word" "HOL-Library.While_Combinator" "HOL-Library.List_Lexorder"
    "HOL-Library.Char_ord" "HOL-Library.Option_ord"
begin

section \<open>Containers of the standard library\<close>

text \<open>
  A \<^verbatim>\<open>std::map\<close> is the list of its entries in the order of iteration, which is the order
  of the keys; a \<^verbatim>\<open>std::set\<close> is the list of its elements in that order.
\<close>

type_synonym ('k, 'v) std_map = "('k \<times> 'v) list"

type_synonym 'k std_set = "'k list"

definition map_find :: "('k, 'v) std_map \<Rightarrow> 'k \<Rightarrow> 'v option" where
  "map_find m k = map_of m k"

text \<open>\<^verbatim>\<open>std::map::insert\<close> leaves an entry with the same key as it is.\<close>

definition map_insert :: "('k::linorder, 'v) std_map \<Rightarrow> 'k \<Rightarrow> 'v \<Rightarrow> ('k, 'v) std_map" where
  "map_insert m k v = (if map_of m k = None then insort_key fst (k, v) m else m)"

text \<open>\<^verbatim>\<open>m[k] = v\<close> overwrites.\<close>

definition map_assign :: "('k::linorder, 'v) std_map \<Rightarrow> 'k \<Rightarrow> 'v \<Rightarrow> ('k, 'v) std_map" where
  "map_assign m k v =
     (if map_of m k = None then insort_key fst (k, v) m
      else map (\<lambda>(k', v'). if k' = k then (k', v) else (k', v')) m)"

definition map_erase :: "('k, 'v) std_map \<Rightarrow> 'k \<Rightarrow> ('k, 'v) std_map" where
  "map_erase m k = filter (\<lambda>(k', v'). k' \<noteq> k) m"

definition set_insert :: "'k::linorder std_set \<Rightarrow> 'k \<Rightarrow> 'k std_set" where
  "set_insert s k = (if k \<in> set s then s else insort k s)"

definition set_erase :: "'k std_set \<Rightarrow> 'k \<Rightarrow> 'k std_set" where
  "set_erase s k = filter (\<lambda>k'. k' \<noteq> k) s"

text \<open>\<^verbatim>\<open>ostream << n\<close> for an integer \<open>n\<close>: its decimal digits.\<close>

function show_decimal :: "nat \<Rightarrow> string" where
  "show_decimal n =
     (if n < 10 then [char_of (48 + n)] else show_decimal (n div 10) @ [char_of (48 + n mod 10)])"
  by pat_completeness auto
termination
  by (relation "measure id") auto

definition show_long :: "int \<Rightarrow> string" where
  "show_long i = (if i < 0 then CHR ''-'' # show_decimal (nat (- i)) else show_decimal (nat i))"

section \<open>The prioritized event queue (utDataflow/EventQueue.h, EventQueue.cpp)\<close>

text \<open>
  \<^verbatim>\<open>EventQueue::ReceiverInfo\<close>: the port and the mutex are pointers (addresses), the
  two counters are C++ \<^verbatim>\<open>int\<close>s. The counters are kept as mathematical integers and
  every \<^verbatim>\<open>++\<close> and \<^verbatim>\<open>--\<close> goes through \<open>int32\<close>, the two's complement wrap-around
  of a 32 bit \<^verbatim>\<open>int\<close>.
\<close>

record ReceiverInfo =
  pPort :: nat
  pMutex :: "nat option"
  nMaxQueueLength :: int
  nQueuedEvents :: int

definition int32 :: "int \<Rightarrow> int" where
  "int32 x = (x + 2147483648) mod 4294967296 - 2147483648"

text \<open>
  \<^verbatim>\<open>EventQueue::QueueData\<close>: \<open>pReceiverInfo\<close> is a pointer that may be null, the payload
  is an opaque callable, the priority an \<^verbatim>\<open>unsigned long long\<close>.
\<close>

record 'e QueueData =
  pReceiverInfo :: "nat option"
  event :: 'e
  priority :: "64 word"

datatype thread_state = state_running | state_stopping | state_stopped | state_end

text \<open>
  The queue object: the \<^verbatim>\<open>std::list\<close> of queued events, the state of the worker thread,
  and the store of the \<^verbatim>\<open>ReceiverInfo\<close> objects the queued events point to.
\<close>

record 'e EventQueue =
  m_Queue :: "'e QueueData list"
  m_State :: thread_state
  receivers :: "nat \<Rightarrow> ReceiverInfo"

datatype queue_error =
  DerefEnd \<comment> \<open>an iterator was dereferenced at \<^verbatim>\<open>end()\<close>\<close>
  | FrontOfEmpty \<comment> \<open>\<^verbatim>\<open>front()\<close> of an empty list\<close>

text \<open>
  The slow path of the insertion,
  \<^verbatim>\<open>it = begin(); while ( it->priority < pos->priority ) it++; insert( it, *pos );\<close>
  The loop has no test against \<^verbatim>\<open>end()\<close>.
\<close>

fun insert_near_front :: "'e QueueData \<Rightarrow> 'e QueueData list \<Rightarrow> queue_error + 'e QueueData list" where
  "insert_near_front x [] = Inl DerefEnd"
| "insert_near_front x (y # ys) =
     (if priority y < priority x
      then (case insert_near_front x ys of Inl e \<Rightarrow> Inl e | Inr zs \<Rightarrow> Inr (y # zs))
      else Inr (x # y # ys))"

text \<open>The three branches of "sort event into queue".\<close>

definition sort_into_queue :: "'e QueueData \<Rightarrow> 'e QueueData list \<Rightarrow> queue_error + 'e QueueData list" where
  "sort_into_queue x q =
     (if q = [] then Inr (q @ [x])
      else if priority (last q) \<le> priority x then Inr (q @ [x])
      else insert_near_front x q)"

definition inc_queued :: "nat option \<Rightarrow> (nat \<Rightarrow> ReceiverInfo) \<Rightarrow> (nat \<Rightarrow> ReceiverInfo)" where
  "inc_queued p rs =
     (case p of None \<Rightarrow> rs
      | Some r \<Rightarrow> rs(r := (rs r)\<lparr>nQueuedEvents := int32 (nQueuedEvents (rs r) + 1)\<rparr>))"

definition dec_queued :: "nat option \<Rightarrow> (nat \<Rightarrow> ReceiverInfo) \<Rightarrow> (nat \<Rightarrow> ReceiverInfo)" where
  "dec_queued p rs =
     (case p of None \<Rightarrow> rs
      | Some r \<Rightarrow> rs(r := (rs r)\<lparr>nQueuedEvents := int32 (nQueuedEvents (rs r) - 1)\<rparr>))"

text \<open>The \<^verbatim>\<open>for\<close> loop of \<^verbatim>\<open>EventQueue::queue\<close> over the batch.\<close>

fun enqueue_all :: "'e QueueData list \<Rightarrow> 'e EventQueue \<Rightarrow> queue_error + 'e EventQueue" where
  "enqueue_all [] s = Inr s"
| "enqueue_all (x # xs) s =
     (case sort_into_queue x (m_Queue s) of
        Inl e \<Rightarrow> Inl e
      | Inr q \<Rightarrow>
          enqueue_all xs (s\<lparr>m_Queue := q, receivers := inc_queued (pReceiverInfo x) (receivers s)\<rparr>))"

text \<open>
  The test shared by \<^verbatim>\<open>queue\<close>, \<^verbatim>\<open>dispatchNow\<close> and \<^verbatim>\<open>threadFunction\<close>: the receiver
  of the front event has a positive maximum queue length and more queued events than that.
\<close>

definition too_long :: "(nat \<Rightarrow> ReceiverInfo) \<Rightarrow> 'e QueueData \<Rightarrow> bool" where
  "too_long rs x =
     (case pReceiverInfo x of None \<Rightarrow> False
      | Some r \<Rightarrow> nMaxQueueLength (rs r) > 0 \<and> nQueuedEvents (rs r) > nMaxQueueLength (rs r))"

text \<open>
  The \<^verbatim>\<open>while\<close> loop of \<^verbatim>\<open>queue\<close> that drops front events. It reads \<^verbatim>\<open>front()\<close> before every
  round and tests for emptiness only once, before the loop. The result carries the dropped
  events in the order of their "Queue too long, dropping event" log lines.
\<close>

fun drop_front :: "(nat \<Rightarrow> ReceiverInfo) \<Rightarrow> 'e QueueData list \<Rightarrow>
    queue_error + ((nat \<Rightarrow> ReceiverInfo) \<times> 'e QueueData list \<times> 'e QueueData list)" where
  "drop_front rs [] = Inl FrontOfEmpty"
| "drop_front rs (x # xs) =
     (if too_long rs x
      then (case drop_front (dec_queued (pReceiverInfo x) rs) xs of
              Inl e \<Rightarrow> Inl e
            | Inr (rs', q', dropped) \<Rightarrow> Inr (rs', q', x # dropped))
      else Inr (rs, x # xs, []))"

text \<open>\<^verbatim>\<open>EventQueue::queue\<close>: the new queue and the events it dropped.\<close>

definition queue :: "'e QueueData list \<Rightarrow> 'e EventQueue \<Rightarrow> queue_error + ('e EventQueue \<times> 'e QueueData list)" where
  "queue events s =
     (case enqueue_all events s of
        Inl e \<Rightarrow> Inl e
      | Inr s1 \<Rightarrow>
          if m_Queue s1 = [] then Inr (s1, [])
          else (case drop_front (receivers s1) (m_Queue s1) of
                  Inl e \<Rightarrow> Inl e
                | Inr (rs', q', dropped) \<Rightarrow> Inr (s1\<lparr>m_Queue := q', receivers := rs'\<rparr>, dropped)))"

text \<open>
  One round of the loop of \<^verbatim>\<open>EventQueue::threadFunction\<close>, under the queue mutex: what
  the worker does next, and the queue afterwards.
\<close>

datatype 'e thread_action =
  Dispatch "nat option" 'e \<comment> \<open>the event is called, under the receiver's mutex if it has one\<close>
  | Dropped 'e
  | ThreadEnd
  | Stopped
  | Wait

definition thread_round :: "'e EventQueue \<Rightarrow> 'e thread_action \<times> 'e EventQueue" where
  "thread_round s =
     (case m_Queue s of
        x # xs \<Rightarrow>
          if m_State s = state_running
          then ((if too_long (receivers s) x then Dropped (event x) else Dispatch (pReceiverInfo x) (event x)),
                s\<lparr>m_Queue := xs, receivers := dec_queued (pReceiverInfo x) (receivers s)\<rparr>)
          else if m_State s = state_end then (ThreadEnd, s)
          else if m_State s = state_stopping then (Stopped, s\<lparr>m_State := state_stopped\<rparr>)
          else (Wait, s)
      | [] \<Rightarrow>
          if m_State s = state_end then (ThreadEnd, s)
          else if m_State s = state_stopping then (Stopped, s\<lparr>m_State := state_stopped\<rparr>)
          else (Wait, s))"

text \<open>The first \<open>n\<close> rounds of the worker, with no \<^verbatim>\<open>queue\<close> call in between.\<close>

fun thread_rounds :: "nat \<Rightarrow> 'e EventQueue \<Rightarrow> 'e thread_action list \<times> 'e EventQueue" where
  "thread_rounds 0 s = ([], s)"
| "thread_rounds (Suc n) s =
     (case thread_round s of (a, s') \<Rightarrow>
        (case thread_rounds n s' of (as, s'') \<Rightarrow> (a # as, s'')))"


section \<open>Attribute values (utGraph/AttributeValue.h, AttributeValue.cpp)\<close>

text \<open>
  Numbers are C++ \<^verbatim>\<open>double\<close>s. The model does not fix their representation: the type
  \<open>'d\<close> of doubles and the operations of the C library and of the processor that the code
  calls on them are parameters.
  \<^item> \<open>strtod\<close> is given the NUL-terminated string and returns the parsed value together
    with the unparsed rest, the string that \<^verbatim>\<open>endptr\<close> points to;
  \<^item> \<open>show_double\<close> is \<^verbatim>\<open>ostream << double\<close>;
  \<^item> \<open>d_eq\<close>, \<open>d_less\<close>, \<open>d_le\<close> are \<^verbatim>\<open>==\<close>, \<^verbatim>\<open><\<close> and \<^verbatim>\<open><=\<close> on doubles.
\<close>

record 'd numerics =
  strtod :: "string \<Rightarrow> 'd \<times> string"
  show_double :: "'d \<Rightarrow> string"
  d_eq :: "'d \<Rightarrow> 'd \<Rightarrow> bool"
  d_less :: "'d \<Rightarrow> 'd \<Rightarrow> bool"
  d_le :: "'d \<Rightarrow> 'd \<Rightarrow> bool"

text \<open>
  A \<^verbatim>\<open>TiXmlElement\<close> behind a shared pointer: its address, and the text that streaming
  the children of its \<^verbatim>\<open>Value\<close> child produces (empty when there is no such child).
\<close>

record XmlElement =
  xml_address :: nat
  xml_value_text :: string

datatype content_state = stateEmpty | stateUnchecked | stateNumber | stateNoNumber

text \<open>
  The fields of \<^verbatim>\<open>AttributeValue\<close>. \<open>m_double\<close> is \<open>None\<close> until the first assignment:
  only the constructor from a double initialises it.
\<close>

record 'd AttributeValue =
  m_node :: "XmlElement option"
  m_string :: string
  m_double :: "'d option"
  m_contentState :: content_state

text \<open>The four constructors.\<close>

definition AttributeValue_empty :: "'d AttributeValue" where
  "AttributeValue_empty = \<lparr>m_node = None, m_string = [], m_double = None, m_contentState = stateEmpty\<rparr>"

definition AttributeValue_xml :: "XmlElement option \<Rightarrow> 'd AttributeValue" where
  "AttributeValue_xml ptr =
     \<lparr>m_node = ptr, m_string = [], m_double = None,
      m_contentState = (if ptr = None then stateEmpty else stateUnchecked)\<rparr>"

definition AttributeValue_string :: "string \<Rightarrow> 'd AttributeValue" where
  "AttributeValue_string str =
     \<lparr>m_node = None, m_string = str, m_double = None,
      m_contentState = (if str = [] then stateEmpty else stateUnchecked)\<rparr>"

definition AttributeValue_double :: "'d \<Rightarrow> 'd AttributeValue" where
  "AttributeValue_double v =
     \<lparr>m_node = None, m_string = [], m_double = Some v, m_contentState = stateNumber\<rparr>"

datatype av_error =
  NoNumber string \<comment> \<open>"Attribute is no number! (...)"\<close>
  | UninitialisedDouble \<comment> \<open>\<open>m_double\<close> read before any assignment\<close>

text \<open>
  \<^verbatim>\<open>getText\<close>. The members are \<^verbatim>\<open>mutable\<close>: the method is \<^verbatim>\<open>const\<close> and still caches the
  text, so the model returns the text and the updated object. The branch that prints
  \<open>m_double\<close> runs only in \<open>stateNumber\<close>, where it has been assigned.
\<close>

definition getText :: "'d numerics \<Rightarrow> 'd AttributeValue \<Rightarrow> string \<times> 'd AttributeValue" where
  "getText fp v =
     (if m_string v \<noteq> [] \<or> m_contentState v = stateEmpty then (m_string v, v)
      else (case m_node v of
              Some x \<Rightarrow> (xml_value_text x, v\<lparr>m_string := xml_value_text x\<rparr>)
            | None \<Rightarrow>
                (if m_contentState v = stateNumber
                 then (case m_double v of
                         Some d \<Rightarrow> (show_double fp d, v\<lparr>m_string := show_double fp d\<rparr>)
                       | None \<Rightarrow> (m_string v, v))
                 else (m_string v, v))))"

text \<open>\<^verbatim>\<open>std::string::c_str\<close> as \<^verbatim>\<open>strtod\<close> reads it: up to the first NUL character.\<close>

definition c_str :: "string \<Rightarrow> string" where
  "c_str s = takeWhile (\<lambda>c. c \<noteq> CHR 0x00) s"

text \<open>
  \<^verbatim>\<open>checkNumber\<close>. \<^verbatim>\<open>endptr == nptr\<close> says that nothing was consumed, that is, the rest
  is as long as the string; \<^verbatim>\<open>*endptr != 0\<close> says that the rest is not empty.
\<close>

definition checkNumber :: "'d numerics \<Rightarrow> 'd AttributeValue \<Rightarrow> 'd AttributeValue" where
  "checkNumber fp v =
     (let v1 = (if m_string v = [] then snd (getText fp v) else v);
          nptr = c_str (m_string v1);
          (d, endptr) = strtod fp nptr
      in v1\<lparr>m_double := Some d,
             m_contentState :=
               (if length endptr = length nptr \<or> endptr \<noteq> [] then stateNoNumber else stateNumber)\<rparr>)"

definition isNumber :: "'d numerics \<Rightarrow> 'd AttributeValue \<Rightarrow> bool \<times> 'd AttributeValue" where
  "isNumber fp v =
     (if m_contentState v = stateEmpty then (False, v)
      else (let v1 = (if m_contentState v = stateUnchecked then checkNumber fp v else v)
            in (m_contentState v1 = stateNumber, v1)))"

definition getNumber :: "'d numerics \<Rightarrow> 'd AttributeValue \<Rightarrow> (av_error + 'd) \<times> 'd AttributeValue" where
  "getNumber fp v =
     (let v1 = (if m_contentState v = stateUnchecked then checkNumber fp v else v)
      in if m_contentState v1 = stateEmpty \<or> m_contentState v1 = stateNoNumber
         then (Inl (NoNumber (m_string v1)), v1)
         else (case m_double v1 of
                 Some d \<Rightarrow> (Inr d, v1)
               | None \<Rightarrow> (Inl UninitialisedDouble, v1)))"

text \<open>\<^verbatim>\<open>AttributeValue::operator==\<close>; XML values are compared by the address of their node.\<close>

definition av_equal :: "'d numerics \<Rightarrow> 'd AttributeValue \<Rightarrow> 'd AttributeValue \<Rightarrow> bool" where
  "av_equal fp a b =
     (case m_node a of
        Some x \<Rightarrow> (case m_node b of Some y \<Rightarrow> xml_address x = xml_address y | None \<Rightarrow> False)
      | None \<Rightarrow>
          (case isNumber fp a of (an, a1) \<Rightarrow>
           case isNumber fp b of (bn, b1) \<Rightarrow>
             (an \<and> bn \<and> (case (m_double a1, m_double b1) of
                             (Some x, Some y) \<Rightarrow> d_eq fp x y | _ \<Rightarrow> False))
             \<or> fst (getText fp a1) = fst (getText fp b1)))"

section \<open>Comparison predicates (utGraph/Predicate.h, Predicate.cpp)\<close>

datatype ComparisonType = equals | notEquals | greater | less | greaterEquals | lessEquals

text \<open>
  \<^verbatim>\<open>a.getNumber() OP b.getNumber()\<close>: both operands are converted, and the comparison
  throws when either conversion throws.
\<close>

definition compare_numbers ::
  "'d numerics \<Rightarrow> ('d \<Rightarrow> 'd \<Rightarrow> bool) \<Rightarrow> 'd AttributeValue \<Rightarrow> 'd AttributeValue \<Rightarrow> av_error + bool" where
  "compare_numbers fp rel a b =
     (case fst (getNumber fp a) of
        Inl e \<Rightarrow> Inl e
      | Inr x \<Rightarrow> (case fst (getNumber fp b) of Inl e \<Rightarrow> Inl e | Inr y \<Rightarrow> Inr (rel x y)))"

text \<open>
  \<^verbatim>\<open>PredicateCompare::doCompare\<close>. The operands are passed by \<^verbatim>\<open>const\<close> reference; the calls
  update their caches, which the model threads from one call to the next.
\<close>

definition doCompare ::
  "'d numerics \<Rightarrow> ComparisonType \<Rightarrow> 'd AttributeValue \<Rightarrow> 'd AttributeValue \<Rightarrow> av_error + bool" where
  "doCompare fp m_type a b =
     (case m_type of
        equals \<Rightarrow>
          (case isNumber fp a of (an, a1) \<Rightarrow>
             if an
             then (case isNumber fp b of (bn, b1) \<Rightarrow>
                     if bn then compare_numbers fp (d_eq fp) a1 b1 else Inr False)
             else Inr (fst (getText fp a1) = fst (getText fp b)))
      | notEquals \<Rightarrow>
          (case isNumber fp a of (an, a1) \<Rightarrow>
             if an
             then (case isNumber fp b of (bn, b1) \<Rightarrow>
                     if bn then compare_numbers fp (\<lambda>x y. \<not> d_eq fp x y) a1 b1 else Inr True)
             else Inr (fst (getText fp a1) \<noteq> fst (getText fp b)))
      | greater \<Rightarrow> compare_numbers fp (\<lambda>x y. d_less fp y x) a b
      | greaterEquals \<Rightarrow> compare_numbers fp (\<lambda>x y. d_le fp y x) a b
      | less \<Rightarrow> compare_numbers fp (d_less fp) a b
      | lessEquals \<Rightarrow> compare_numbers fp (d_le fp) a b)"

section \<open>The generic graph (utGraph/Graph.h)\<close>

text \<open>
  Nodes and edges are objects behind shared and weak pointers. The graph carries the store
  of its objects: a pointer is an address, \<^verbatim>\<open>new\<close> takes the next free one. An object
  stays in the store when its last shared pointer is gone; nothing modelled here reads
  such an object. The classes derived from \<^verbatim>\<open>Graph\<close> are extensions of its record, and
  the operations are defined on every extension.
\<close>

record 'na GraphNode =
  node_attributes :: 'na
  node_Name :: string
  m_InEdges :: "nat list"
  m_OutEdges :: "nat list"

record 'ea GraphEdge =
  edge_attributes :: 'ea
  edge_Name :: string
  m_Source :: "nat option"
  m_Target :: "nat option"

record ('na, 'ea) Graph =
  node_objects :: "nat \<Rightarrow> 'na GraphNode option"
  edge_objects :: "nat \<Rightarrow> 'ea GraphEdge option"
  next_object :: nat
  m_Nodes :: "(string, nat) std_map"
  m_Edges :: "(string, nat) std_map"

datatype graph_error =
  Exception string \<comment> \<open>\<^verbatim>\<open>UBITRACK_THROW\<close> with its message\<close>
  | NullPointer \<comment> \<open>a null or expired pointer was dereferenced\<close>

definition empty_Graph :: "('na, 'ea) Graph" where
  "empty_Graph =
     \<lparr>node_objects = (\<lambda>_. None), edge_objects = (\<lambda>_. None), next_object = 0,
      m_Nodes = [], m_Edges = []\<rparr>"

definition addNode ::
  "string \<Rightarrow> 'na \<Rightarrow> ('na, 'ea, 'z) Graph_scheme \<Rightarrow>
    graph_error + (nat \<times> ('na, 'ea, 'z) Graph_scheme)" where
  "addNode nodeName data g =
     (if map_find (m_Nodes g) nodeName \<noteq> None
      then Inl (Exception ''Trying to insert already present node'')
      else (let newNode = next_object g
            in Inr (newNode,
                 g\<lparr>node_objects := (node_objects g)
                      (newNode \<mapsto> \<lparr>node_attributes = data, node_Name = nodeName,
                                    m_InEdges = [], m_OutEdges = []\<rparr>),
                   next_object := Suc newNode,
                   m_Nodes := map_assign (m_Nodes g) nodeName newNode\<rparr>)))"

definition hasNode :: "('na, 'ea, 'z) Graph_scheme \<Rightarrow> string \<Rightarrow> bool" where
  "hasNode g nodeName = (map_find (m_Nodes g) nodeName \<noteq> None)"

definition getNode :: "('na, 'ea, 'z) Graph_scheme \<Rightarrow> string \<Rightarrow> graph_error + nat" where
  "getNode g nodeName =
     (case map_find (m_Nodes g) nodeName of
        None \<Rightarrow> Inl (Exception (''Trying to get a non present node '' @ nodeName))
      | Some p \<Rightarrow> Inr p)"

text \<open>
  \<^verbatim>\<open>addEdge( edgeName, NodePtr source, NodePtr target, data )\<close>. A name that is already
  present is only logged (the throw is commented out); \<^verbatim>\<open>insert\<close> then keeps the old entry
  of the edge map, and the new edge is still appended to the two incidence lists.
\<close>

definition push_out_edge :: "nat \<Rightarrow> nat \<Rightarrow> ('na, 'ea, 'z) Graph_scheme \<Rightarrow> graph_error + ('na, 'ea, 'z) Graph_scheme" where
  "push_out_edge node e g =
     (case node_objects g node of
        None \<Rightarrow> Inl NullPointer
      | Some n \<Rightarrow> Inr (g\<lparr>node_objects := (node_objects g)(node \<mapsto> n\<lparr>m_OutEdges := m_OutEdges n @ [e]\<rparr>)\<rparr>))"

definition push_in_edge :: "nat \<Rightarrow> nat \<Rightarrow> ('na, 'ea, 'z) Graph_scheme \<Rightarrow> graph_error + ('na, 'ea, 'z) Graph_scheme" where
  "push_in_edge node e g =
     (case node_objects g node of
        None \<Rightarrow> Inl NullPointer
      | Some n \<Rightarrow> Inr (g\<lparr>node_objects := (node_objects g)(node \<mapsto> n\<lparr>m_InEdges := m_InEdges n @ [e]\<rparr>)\<rparr>))"

definition addEdge ::
  "string \<Rightarrow> nat \<Rightarrow> nat \<Rightarrow> 'ea \<Rightarrow> ('na, 'ea, 'z) Graph_scheme \<Rightarrow>
    graph_error + (nat \<times> ('na, 'ea, 'z) Graph_scheme)" where
  "addEdge edgeName source target data g =
     (let newEdge = next_object g;
          g1 = g\<lparr>edge_objects := (edge_objects g)
                   (newEdge \<mapsto> \<lparr>edge_attributes = data, edge_Name = edgeName,
                                 m_Source = Some source, m_Target = Some target\<rparr>),
                 next_object := Suc newEdge,
                 m_Edges := map_insert (m_Edges g) edgeName newEdge\<rparr>
      in case push_out_edge source newEdge g1 of
           Inl e \<Rightarrow> Inl e
         | Inr g2 \<Rightarrow>
             (case push_in_edge target newEdge g2 of
                Inl e \<Rightarrow> Inl e
              | Inr g3 \<Rightarrow> Inr (newEdge, g3)))"

definition hasEdge :: "('na, 'ea, 'z) Graph_scheme \<Rightarrow> string \<Rightarrow> bool" where
  "hasEdge g edgeName = (map_find (m_Edges g) edgeName \<noteq> None)"

definition getEdge :: "('na, 'ea, 'z) Graph_scheme \<Rightarrow> string \<Rightarrow> graph_error + nat" where
  "getEdge g edgeName =
     (case map_find (m_Edges g) edgeName of
        None \<Rightarrow> Inl (Exception (''Trying to get a non present edge '' @ edgeName))
      | Some p \<Rightarrow> Inr p)"

section \<open>Attribute maps, expressions and predicates (utGraph/KeyValueAttributes.cpp, AttributeExpression.cpp, Predicate.cpp)\<close>

text \<open>
  \<^verbatim>\<open>KeyValueAttributes\<close> is a \<^verbatim>\<open>std::map\<close> from names to values. Reading a stored value
  through a \<^verbatim>\<open>const\<close> method updates the caches of the stored object; the model leaves the
  stored object as it is, since the caches do not change what a later call returns.
\<close>

type_synonym 'd KeyValueAttributes = "(string, 'd AttributeValue) std_map"

definition getAttribute :: "'d KeyValueAttributes \<Rightarrow> string \<Rightarrow> graph_error + 'd AttributeValue" where
  "getAttribute kv key =
     (case map_find kv key of
        None \<Rightarrow> Inl (Exception ''Unknown key in get attribute'')
      | Some v \<Rightarrow> Inr v)"

definition hasAttribute :: "'d KeyValueAttributes \<Rightarrow> string \<Rightarrow> bool" where
  "hasAttribute kv key = (map_find kv key \<noteq> None)"

definition setAttribute :: "'d KeyValueAttributes \<Rightarrow> string \<Rightarrow> 'd AttributeValue \<Rightarrow> 'd KeyValueAttributes" where
  "setAttribute kv key v = map_assign kv key v"

definition mergeAttributes :: "'d KeyValueAttributes \<Rightarrow> 'd KeyValueAttributes \<Rightarrow> 'd KeyValueAttributes" where
  "mergeAttributes kv x = foldl (\<lambda>m (k, v). setAttribute m k v) kv x"

definition getAttributeString :: "'d numerics \<Rightarrow> 'd KeyValueAttributes \<Rightarrow> string \<Rightarrow> string" where
  "getAttributeString fp kv key =
     (case map_find kv key of None \<Rightarrow> [] | Some v \<Rightarrow> fst (getText fp v))"

text \<open>
  \<^verbatim>\<open>EvaluationContext\<close>: the attributes and the information sources of one node or edge,
  or a matching. Of the matching the context holds \<open>m_allInputAttributes\<close>, each pointer
  replaced by the attribute map it points to, and \<open>m_informationSources\<close>.
\<close>

record 'd MatchingView =
  allInputAttributes :: "(string, 'd KeyValueAttributes) std_map"
  informationSources :: "string std_set"

record 'd EvaluationContext =
  m_pNodeEdgeAttributes :: "'d KeyValueAttributes option"
  m_pPatternAttributes :: "string std_set option"
  m_pMatching :: "'d MatchingView option"

definition isGlobal :: "'d EvaluationContext \<Rightarrow> bool" where
  "isGlobal c = (m_pNodeEdgeAttributes c = None)"

datatype eval_error =
  ValueError av_error
  | GraphError graph_error

datatype FunctionType = FunctionSyncError | FunctionSteadyState | FunctionSourceCount

text \<open>
  The tree of \<^verbatim>\<open>AttributeExpression\<close> classes. The unary and binary expressions hold the
  functor they apply to doubles.
\<close>

datatype 'd AttributeExpression =
  AttributeExpressionConstant "'d AttributeValue"
  | AttributeExpressionAttribute string string \<comment> \<open>\<open>m_nodeEdge\<close> and \<open>m_name\<close>\<close>
  | AttributeExpressionUnary "'d \<Rightarrow> 'd" "'d AttributeExpression"
  | AttributeExpressionBinary "'d \<Rightarrow> 'd \<Rightarrow> 'd" "'d AttributeExpression" "'d AttributeExpression"
  | AttributeExpressionFunction FunctionType "'d AttributeExpression list"

text \<open>
  \<^verbatim>\<open>AttributeExpression::evaluate\<close>. The functions \<^verbatim>\<open>syncError\<close>, \<^verbatim>\<open>steadyState\<close> and
  \<^verbatim>\<open>sourceCount\<close> are floating point computations on a matching; outside a matching they
  throw, and inside one their value is the parameter \<open>fn\<close>.
\<close>

type_synonym 'd function_semantics =
  "FunctionType \<Rightarrow> 'd AttributeExpression list \<Rightarrow> 'd EvaluationContext \<Rightarrow> eval_error + 'd AttributeValue"

definition number_of :: "'d numerics \<Rightarrow> eval_error + 'd AttributeValue \<Rightarrow> eval_error + 'd" where
  "number_of fp r =
     (case r of
        Inl e \<Rightarrow> Inl e
      | Inr v \<Rightarrow> (case fst (getNumber fp v) of Inl e \<Rightarrow> Inl (ValueError e) | Inr d \<Rightarrow> Inr d))"

fun evaluate_expression ::
  "'d numerics \<Rightarrow> 'd function_semantics \<Rightarrow> 'd EvaluationContext \<Rightarrow> 'd AttributeExpression \<Rightarrow>
    eval_error + 'd AttributeValue" where
  "evaluate_expression fp fn c (AttributeExpressionConstant m_value) = Inr m_value"
| "evaluate_expression fp fn c (AttributeExpressionAttribute m_nodeEdge m_name) =
     (case (if isGlobal c
            then (case m_pMatching c of
                    None \<Rightarrow> Inl (GraphError NullPointer)
                  | Some m \<Rightarrow> Inr (map_find (allInputAttributes m) m_nodeEdge))
            else Inr (m_pNodeEdgeAttributes c)) of
        Inl e \<Rightarrow> Inl e
      | Inr None \<Rightarrow> Inr AttributeValue_empty
      | Inr (Some pAttr) \<Rightarrow>
          (if hasAttribute pAttr m_name
           then (case getAttribute pAttr m_name of Inl e \<Rightarrow> Inl (GraphError e) | Inr v \<Rightarrow> Inr v)
           else Inr AttributeValue_empty))"
| "evaluate_expression fp fn c (AttributeExpressionUnary m_f pChild) =
     (case number_of fp (evaluate_expression fp fn c pChild) of
        Inl e \<Rightarrow> Inl e
      | Inr x \<Rightarrow> Inr (AttributeValue_double (m_f x)))"
| "evaluate_expression fp fn c (AttributeExpressionBinary m_f pChild1 pChild2) =
     (case number_of fp (evaluate_expression fp fn c pChild1) of
        Inl e \<Rightarrow> Inl e
      | Inr x \<Rightarrow>
          (case number_of fp (evaluate_expression fp fn c pChild2) of
             Inl e \<Rightarrow> Inl e
           | Inr y \<Rightarrow> Inr (AttributeValue_double (m_f x y))))"
| "evaluate_expression fp fn c (AttributeExpressionFunction m_functionType m_children) =
     (if \<not> isGlobal c
      then Inl (GraphError (Exception ''Function can only be used within AttributeExpressions''))
      else fn m_functionType m_children c)"

datatype PredicateFunctionType = inSourceSet

datatype 'd Predicate =
  PredicateNot "'d Predicate"
  | PredicateAnd "'d Predicate" "'d Predicate"
  | PredicateOr "'d Predicate" "'d Predicate"
  | PredicateCompare ComparisonType "'d AttributeExpression" "'d AttributeExpression"
  | PredicateFunction PredicateFunctionType "'d AttributeExpression"

text \<open>
  \<^verbatim>\<open>Predicate::evaluate\<close>, with the short-circuit evaluation of \<^verbatim>\<open>&&\<close> and \<^verbatim>\<open>||\<close>.
  \<^verbatim>\<open>inSourceSet\<close> looks for the first information source that is not less than the query
  (\<^verbatim>\<open>lower_bound\<close>) and tests whether it starts with the query.
\<close>

fun evaluate_predicate ::
  "'d numerics \<Rightarrow> 'd function_semantics \<Rightarrow> 'd EvaluationContext \<Rightarrow> 'd Predicate \<Rightarrow> eval_error + bool" where
  "evaluate_predicate fp fn c (PredicateNot pChild) =
     (case evaluate_predicate fp fn c pChild of Inl e \<Rightarrow> Inl e | Inr r \<Rightarrow> Inr (\<not> r))"
| "evaluate_predicate fp fn c (PredicateAnd pChild1 pChild2) =
     (case evaluate_predicate fp fn c pChild1 of
        Inl e \<Rightarrow> Inl e
      | Inr r \<Rightarrow> if r then evaluate_predicate fp fn c pChild2 else Inr False)"
| "evaluate_predicate fp fn c (PredicateOr pChild1 pChild2) =
     (case evaluate_predicate fp fn c pChild1 of
        Inl e \<Rightarrow> Inl e
      | Inr r \<Rightarrow> if r then Inr True else evaluate_predicate fp fn c pChild2)"
| "evaluate_predicate fp fn c (PredicateCompare m_type pChild1 pChild2) =
     (case evaluate_expression fp fn c pChild1 of
        Inl e \<Rightarrow> Inl e
      | Inr a \<Rightarrow>
          (case evaluate_expression fp fn c pChild2 of
             Inl e \<Rightarrow> Inl e
           | Inr b \<Rightarrow> (case doCompare fp m_type a b of Inl e \<Rightarrow> Inl (ValueError e) | Inr r \<Rightarrow> Inr r)))"
| "evaluate_predicate fp fn c (PredicateFunction inSourceSet pChild1) =
     (if isGlobal c
      then Inl (GraphError (Exception ''inSourceSet can only be used in edge predicates!''))
      else (case evaluate_expression fp fn c pChild1 of
              Inl e \<Rightarrow> Inl e
            | Inr v \<Rightarrow>
                (case m_pPatternAttributes c of
                   None \<Rightarrow> Inl (GraphError NullPointer)
                 | Some sources \<Rightarrow>
                     (let query = fst (getText fp v)
                      in (case find (\<lambda>s. query \<le> s) sources of
                            None \<Rightarrow> Inr False
                          | Some it \<Rightarrow>
                              Inr (length it \<ge> length query \<and> take (length query) it = query))))))"

text \<open>
  \<^verbatim>\<open>getConjunctiveEqualities\<close>: the pairs of an attribute name and a constant that a
  predicate equates in its top-level conjunction. The name is \<open>m_name\<close>, without the
  qualifier.
\<close>

fun getConjunctiveEqualities :: "'d numerics \<Rightarrow> 'd Predicate \<Rightarrow> (string \<times> string) list" where
  "getConjunctiveEqualities fp (PredicateAnd pChild1 pChild2) =
     getConjunctiveEqualities fp pChild1 @ getConjunctiveEqualities fp pChild2"
| "getConjunctiveEqualities fp
     (PredicateCompare equals (AttributeExpressionAttribute m_nodeEdge m_name) (AttributeExpressionConstant m_value)) =
     [(m_name, fst (getText fp m_value))]"
| "getConjunctiveEqualities fp p = []"

section \<open>UTQL subgraphs and the spatial relationship graph (utGraph/UTQLSubgraph.h, SRGraph.h)\<close>

text \<open>
  The attribute classes. \<^verbatim>\<open>KeyValueAttributes\<close> (\<open>m_Values\<close>) and \<^verbatim>\<open>PatternAttributes\<close>
  (\<open>m_InformationSources\<close>) are bases of all four node and edge classes and form the root
  record; \<^verbatim>\<open>InOutAttribute\<close> with its \<^verbatim>\<open>PredicateList\<close> extends it for the nodes and edges of
  UTQL subgraphs.
\<close>

record 'd Attributes =
  m_Values :: "'d KeyValueAttributes"
  m_InformationSources :: "string std_set"

datatype Tag = Input | Output

record 'd InOutAttribute = "'d Attributes" +
  m_predicateList :: "'d Predicate list"
  m_Tag :: Tag
  m_attributeExpressions :: "(string \<times> 'd AttributeExpression) list"

definition isInput :: "('d, 'z) InOutAttribute_scheme \<Rightarrow> bool" where
  "isInput x = (m_Tag x = Input)"

definition isOutput :: "('d, 'z) InOutAttribute_scheme \<Rightarrow> bool" where
  "isOutput x = (m_Tag x = Output)"

record EdgeReference =
  m_id :: string
  m_name :: string

definition EdgeReference_default :: EdgeReference where
  "EdgeReference_default = \<lparr>m_id = [], m_name = []\<rparr>"

definition EdgeReference_new :: "string \<Rightarrow> string \<Rightarrow> graph_error + EdgeReference" where
  "EdgeReference_new graphRef edgeRef =
     (if graphRef = [] \<or> edgeRef = []
      then Inl (Exception (''illegal edge reference: '' @ graphRef @ '':'' @ edgeRef))
      else Inr \<lparr>m_id = graphRef, m_name = edgeRef\<rparr>)"

record 'd UTQLNode = "'d InOutAttribute" +
  m_QualifiedName :: string

record 'd UTQLEdge = "'d InOutAttribute" +
  m_EdgeReference :: EdgeReference

text \<open>\<^verbatim>\<open>UTQLNode( tag )\<close> and \<^verbatim>\<open>UTQLEdge( tag )\<close>.\<close>

definition UTQLNode_new :: "Tag \<Rightarrow> 'd UTQLNode" where
  "UTQLNode_new tag =
     \<lparr>m_Values = [], m_InformationSources = [], m_predicateList = [], m_Tag = tag,
      m_attributeExpressions = [], m_QualifiedName = []\<rparr>"

definition UTQLEdge_new :: "Tag \<Rightarrow> 'd UTQLEdge" where
  "UTQLEdge_new tag =
     \<lparr>m_Values = [], m_InformationSources = [], m_predicateList = [], m_Tag = tag,
      m_attributeExpressions = [], m_EdgeReference = EdgeReference_default\<rparr>"

record 'd UTQLSubgraph = "('d UTQLNode, 'd UTQLEdge) Graph" +
  m_ID :: string
  m_Name :: string
  m_onlyBestEdgeMatch :: bool
  m_bestMatchExpression :: "'d AttributeExpression option"
  m_DataflowConfiguration :: "'d AttributeValue"
  m_DataflowAttributes :: "'d KeyValueAttributes"
  m_DataflowClass :: string

definition UTQLSubgraph_new :: "'d UTQLSubgraph" where
  "UTQLSubgraph_new =
     \<lparr>node_objects = (\<lambda>_. None), edge_objects = (\<lambda>_. None), next_object = 0,
      m_Nodes = [], m_Edges = [],
      m_ID = [], m_Name = [], m_onlyBestEdgeMatch = False, m_bestMatchExpression = None,
      m_DataflowConfiguration = AttributeValue_empty, m_DataflowAttributes = [],
      m_DataflowClass = []\<rparr>"

text \<open>
  The attributes of the nodes and edges of the SRG. \<open>m_NodeRefs\<close> holds pointers to nodes
  of registered subgraphs: the identifier of the subgraph and the address of the node in it.
\<close>

record 'd SRGNodeAttributes = "'d Attributes" +
  m_SubgraphIDs :: "string std_set"
  m_NodeRefs :: "(string \<times> nat) std_set"

record 'd SRGEdgeAttributes = "'d Attributes" +
  m_SubgraphID :: string
  m_PatternName :: string
  m_LocalName :: string
  m_DependantSubgraphIDs :: "string std_set"

text \<open>
  \<^verbatim>\<open>SRGEdgeAttributes( utqlAttrs, subgraphID, localName )\<close> copies the attribute map of the
  UTQL edge; the information sources start empty.
\<close>

definition SRGEdgeAttributes_new :: "'d UTQLEdge \<Rightarrow> string \<Rightarrow> string \<Rightarrow> 'd SRGEdgeAttributes" where
  "SRGEdgeAttributes_new utqlAttrs subgraphID localName =
     \<lparr>m_Values = m_Values utqlAttrs, m_InformationSources = [],
      m_SubgraphID = subgraphID, m_PatternName = [], m_LocalName = localName,
      m_DependantSubgraphIDs = []\<rparr>"

record 'd SRGraph = "('d SRGNodeAttributes, 'd SRGEdgeAttributes) Graph" +
  m_NodeIDMap :: "(string, nat) std_map"

definition SRGraph_hasNode :: "'d SRGraph \<Rightarrow> string \<Rightarrow> bool" where
  "SRGraph_hasNode srg id' = (map_find (m_NodeIDMap srg) id' \<noteq> None)"

definition SRGraph_getNode :: "'d SRGraph \<Rightarrow> string \<Rightarrow> graph_error + nat" where
  "SRGraph_getNode srg id' =
     (case map_find (m_NodeIDMap srg) id' of
        None \<Rightarrow> Inl (Exception ''Trying to get node for unregistered id'')
      | Some p \<Rightarrow> Inr p)"

text \<open>\<^verbatim>\<open>EvaluationContext( const SRGNodeAttributes& )\<close> and the one for edges.\<close>

definition local_context :: "('d, 'z) Attributes_scheme \<Rightarrow> 'd EvaluationContext" where
  "local_context attrs =
     \<lparr>m_pNodeEdgeAttributes = Some (m_Values attrs),
      m_pPatternAttributes = Some (m_InformationSources attrs),
      m_pMatching = None\<rparr>"

section \<open>Matchings and patterns (utGraph/EdgeMatching.h, Pattern.h)\<close>

record vertexMapData =
  m_correspondence :: "nat option"
  m_associationCount :: int

datatype attribute_ref = SrgEdge nat | SrgNode nat

text \<open>
  \<^verbatim>\<open>EdgeMatching< UTQLSubgraph, SRGraph >\<close>. The four correspondence maps have pointers as
  keys and are ordered by address. \<open>m_allInputAttributes\<close> points into SRG nodes and edges.
\<close>

record 'd EdgeMatching =
  m_edgeForwardMap :: "(nat, nat) std_map"
  m_edgeBackwardMap :: "(nat, nat) std_map"
  m_vertexForwardMap :: "(nat, vertexMapData) std_map"
  m_vertexBackwardMap :: "(nat, vertexMapData) std_map"
  m_expandedEdgeAttributes :: "(string, 'd KeyValueAttributes) std_map"
  m_expandedNodeAttributes :: "(string, 'd KeyValueAttributes) std_map"
  m_allInputAttributes :: "(string, attribute_ref) std_map"
  m_informationSources :: "string std_set"
  m_iSearchPlanStep :: int

definition EdgeMatching_new :: "'d EdgeMatching" where
  "EdgeMatching_new =
     \<lparr>m_edgeForwardMap = [], m_edgeBackwardMap = [], m_vertexForwardMap = [],
      m_vertexBackwardMap = [], m_expandedEdgeAttributes = [], m_expandedNodeAttributes = [],
      m_allInputAttributes = [], m_informationSources = [], m_iSearchPlanStep = 0\<rparr>"

definition isPatternEdgeMatched :: "'d EdgeMatching \<Rightarrow> nat \<Rightarrow> bool" where
  "isPatternEdgeMatched m e = (map_find (m_edgeForwardMap m) e \<noteq> None)"

definition isSrgEdgeMatched :: "'d EdgeMatching \<Rightarrow> nat \<Rightarrow> bool" where
  "isSrgEdgeMatched m e = (map_find (m_edgeBackwardMap m) e \<noteq> None)"

definition isPatternVertexMatched :: "'d EdgeMatching \<Rightarrow> nat \<Rightarrow> bool" where
  "isPatternVertexMatched m u = (map_find (m_vertexForwardMap m) u \<noteq> None)"

definition isSrgVertexMatched :: "'d EdgeMatching \<Rightarrow> nat \<Rightarrow> bool" where
  "isSrgVertexMatched m u = (map_find (m_vertexBackwardMap m) u \<noteq> None)"

definition getCorrespondingSrgEdge :: "'d EdgeMatching \<Rightarrow> nat \<Rightarrow> graph_error + nat" where
  "getCorrespondingSrgEdge m e =
     (case map_find (m_edgeForwardMap m) e of
        None \<Rightarrow> Inl (Exception ''Edge not matched in getCorrespondingSrgEdge: '')
      | Some f \<Rightarrow> Inr f)"

text \<open>
  \<^verbatim>\<open>getCorrespondingSrgVertex\<close> puts the name of the pattern vertex into its message; the
  model leaves the name out of the message.
\<close>

definition getCorrespondingSrgVertex :: "'d EdgeMatching \<Rightarrow> nat \<Rightarrow> graph_error + nat" where
  "getCorrespondingSrgVertex m u =
     (case map_find (m_vertexForwardMap m) u of
        None \<Rightarrow> Inl (Exception ''Vertex not matched in getCorrespondingSrgVertex'')
      | Some d \<Rightarrow> (case m_correspondence d of None \<Rightarrow> Inl NullPointer | Some v \<Rightarrow> Inr v))"

definition isVertexMatchingCompatible :: "'d EdgeMatching \<Rightarrow> nat \<Rightarrow> nat \<Rightarrow> bool" where
  "isVertexMatchingCompatible m u v =
     (\<not> (isPatternVertexMatched m u \<and> getCorrespondingSrgVertex m u \<noteq> Inr v))"

text \<open>
  \<^verbatim>\<open>m[k].m_correspondence = p; m[k].m_associationCount++\<close> on one of the vertex maps: a
  missing entry is made first, with count 0.
\<close>

definition associate :: "(nat, vertexMapData) std_map \<Rightarrow> nat \<Rightarrow> nat \<Rightarrow> (nat, vertexMapData) std_map" where
  "associate vm k p =
     (case map_find vm k of
        None \<Rightarrow> map_assign vm k \<lparr>m_correspondence = Some p, m_associationCount = int32 (0 + 1)\<rparr>
      | Some d \<Rightarrow>
          map_assign vm k \<lparr>m_correspondence = Some p,
                           m_associationCount = int32 (m_associationCount d + 1)\<rparr>)"

datatype match_error =
  AssertionFailed
  | Thrown graph_error

text \<open>\<^verbatim>\<open>addMatchedVertex\<close>, with its \<^verbatim>\<open>assert\<close>.\<close>

definition addMatchedVertex :: "nat \<Rightarrow> nat \<Rightarrow> 'd EdgeMatching \<Rightarrow> match_error + 'd EdgeMatching" where
  "addMatchedVertex u v m =
     (if \<not> isVertexMatchingCompatible m u v then Inl AssertionFailed
      else Inr (m\<lparr>m_vertexForwardMap := associate (m_vertexForwardMap m) u v,
                  m_vertexBackwardMap := associate (m_vertexBackwardMap m) v u\<rparr>))"

record SearchPlanElement =
  m_pNode :: "nat option"
  m_pEdge :: "nat option"
  m_sId :: string

definition SearchPlanElement_node :: "nat \<Rightarrow> string \<Rightarrow> SearchPlanElement" where
  "SearchPlanElement_node pNode sId = \<lparr>m_pNode = Some pNode, m_pEdge = None, m_sId = sId\<rparr>"

definition SearchPlanElement_edge :: "nat \<Rightarrow> SearchPlanElement" where
  "SearchPlanElement_edge pEdge = \<lparr>m_pNode = None, m_pEdge = Some pEdge, m_sId = []\<rparr>"

record 'd Pattern =
  pattern_Name :: string
  m_clientId :: string
  m_Graph :: "'d UTQLSubgraph"
  m_searchPlan :: "SearchPlanElement list"

section \<open>The search plan and the matcher (utGraph/Pattern.h)\<close>

text \<open>
  \<^verbatim>\<open>AttributeExpressionConstant( value )\<close> classifies its value at once: the constructor
  calls \<^verbatim>\<open>isNumber\<close>.
\<close>

definition AttributeExpressionConstant_new :: "'d numerics \<Rightarrow> string \<Rightarrow> 'd AttributeExpression" where
  "AttributeExpressionConstant_new fp v =
     AttributeExpressionConstant (snd (isNumber fp (AttributeValue_string v)))"

text \<open>
  The start of the search plan in the constructor of \<^verbatim>\<open>Pattern\<close>. First every input node
  whose first predicate equates \<open>id\<close> with a constant becomes a step that carries this
  constant as required id. Without such a node the first input node with predicates
  becomes the first step, and without one of those the first input edge.
\<close>

record plan_state =
  plan :: "SearchPlanElement list"
  nodeStack :: "nat list"
  matchedEdges :: "string std_set"
  matchedNodes :: "string std_set"
  pFirstPredicateNode :: "nat option"

definition plan_state_new :: plan_state where
  "plan_state_new =
     \<lparr>plan = [], nodeStack = [], matchedEdges = [], matchedNodes = [], pFirstPredicateNode = None\<rparr>"

definition id_node_step ::
  "'d numerics \<Rightarrow> 'd UTQLSubgraph \<Rightarrow> string \<times> nat \<Rightarrow> plan_state \<Rightarrow> graph_error + plan_state" where
  "id_node_step fp pGraph node s =
     (case node_objects pGraph (snd node) of
        None \<Rightarrow> Inl NullPointer
      | Some n \<Rightarrow>
          (if m_Tag (node_attributes n) = Input \<and> m_predicateList (node_attributes n) \<noteq> []
           then (let attribs = getConjunctiveEqualities fp (hd (m_predicateList (node_attributes n)));
                     s1 = (case find (\<lambda>a. fst a = ''id'') attribs of
                             None \<Rightarrow> s
                           | Some a \<Rightarrow>
                               s\<lparr>plan := plan s @ [SearchPlanElement_node (snd node) (snd a)],
                                 matchedNodes := set_insert (matchedNodes s) (fst node),
                                 nodeStack := snd node # nodeStack s\<rparr>)
                 in Inr (if pFirstPredicateNode s1 = None
                         then s1\<lparr>pFirstPredicateNode := Some (snd node)\<rparr> else s1))
           else Inr s))"

fun id_nodes ::
  "'d numerics \<Rightarrow> 'd UTQLSubgraph \<Rightarrow> (string \<times> nat) list \<Rightarrow> plan_state \<Rightarrow> graph_error + plan_state" where
  "id_nodes fp pGraph [] s = Inr s"
| "id_nodes fp pGraph (node # nodes) s =
     (case id_node_step fp pGraph node s of
        Inl e \<Rightarrow> Inl e
      | Inr s1 \<Rightarrow> id_nodes fp pGraph nodes s1)"

definition first_input_edge :: "'d UTQLSubgraph \<Rightarrow> plan_state \<Rightarrow> graph_error + plan_state" where
  "first_input_edge pGraph s =
     (if list_ex (\<lambda>(k, p). edge_objects pGraph p = None) (m_Edges pGraph) then Inl NullPointer
      else (case find (\<lambda>(k, p). map_option (m_Tag \<circ> edge_attributes) (edge_objects pGraph p) = Some Input)
                   (m_Edges pGraph) of
              None \<Rightarrow> Inr s
            | Some (k, p) \<Rightarrow>
                (case edge_objects pGraph p of
                   None \<Rightarrow> Inl NullPointer
                 | Some e \<Rightarrow>
                     (case (m_Source e, m_Target e) of
                        (Some src, Some tgt) \<Rightarrow>
                          (case (node_objects pGraph src, node_objects pGraph tgt) of
                             (Some sn, Some tn) \<Rightarrow>
                               Inr (s\<lparr>plan := plan s @ [SearchPlanElement_edge p],
                                      matchedEdges := set_insert (matchedEdges s) k,
                                      nodeStack := tgt # src # nodeStack s,
                                      matchedNodes :=
                                        set_insert (set_insert (matchedNodes s) (node_Name sn)) (node_Name tn)\<rparr>)
                           | _ \<Rightarrow> Inl NullPointer)
                      | _ \<Rightarrow> Inl NullPointer))))"

definition search_plan_start :: "'d numerics \<Rightarrow> 'd UTQLSubgraph \<Rightarrow> graph_error + plan_state" where
  "search_plan_start fp pGraph =
     (case id_nodes fp pGraph (m_Nodes pGraph) plan_state_new of
        Inl e \<Rightarrow> Inl e
      | Inr s \<Rightarrow>
          (if nodeStack s = []
           then (case pFirstPredicateNode s of
                   Some n \<Rightarrow>
                     (case node_objects pGraph n of
                        None \<Rightarrow> Inl NullPointer
                      | Some obj \<Rightarrow>
                          Inr (s\<lparr>plan := plan s @ [SearchPlanElement_node n []],
                                 matchedNodes := set_insert (matchedNodes s) (node_Name obj),
                                 nodeStack := n # nodeStack s\<rparr>))
                 | None \<Rightarrow> first_input_edge pGraph s)
           else Inr s))"

text \<open>
  \<^verbatim>\<open>PatternFunc::isVertexCompatible\<close>: every predicate of the pattern node evaluates to true
  on the SRG node; a predicate that throws counts as false.
\<close>

definition predicates_hold ::
  "'d numerics \<Rightarrow> 'd function_semantics \<Rightarrow> 'd Predicate list \<Rightarrow> 'd EvaluationContext \<Rightarrow> bool" where
  "predicates_hold fp fn preds c = list_all (\<lambda>p. evaluate_predicate fp fn c p = Inr True) preds"

definition isVertexCompatible ::
  "'d numerics \<Rightarrow> 'd function_semantics \<Rightarrow> 'd UTQLSubgraph \<Rightarrow> nat \<Rightarrow> 'd SRGraph \<Rightarrow> nat \<Rightarrow>
    graph_error + bool" where
  "isVertexCompatible fp fn pGraph patternNode srg srgNode =
     (case node_objects pGraph patternNode of
        None \<Rightarrow> Inl NullPointer
      | Some pn \<Rightarrow>
          (if m_predicateList (node_attributes pn) = [] then Inr True
           else (case node_objects srg srgNode of
                   None \<Rightarrow> Inl NullPointer
                 | Some sn \<Rightarrow>
                     Inr (predicates_hold fp fn (m_predicateList (node_attributes pn))
                            (local_context (node_attributes sn))))))"

text \<open>
  The branch "search plan says: match vertex" of \<^verbatim>\<open>PatternFunc::checkPattern\<close>, for the
  state popped from the stack (its step index already incremented): the states it pushes,
  in the order of the pushes.
\<close>

fun try_all_nodes ::
  "'d numerics \<Rightarrow> 'd function_semantics \<Rightarrow> 'd UTQLSubgraph \<Rightarrow> nat \<Rightarrow> 'd SRGraph \<Rightarrow> 'd EdgeMatching \<Rightarrow>
    (string \<times> nat) list \<Rightarrow> match_error + 'd EdgeMatching list" where
  "try_all_nodes fp fn pGraph pVertex srg state [] = Inr []"
| "try_all_nodes fp fn pGraph pVertex srg state (node # nodes) =
     (if isSrgVertexMatched state (snd node)
      then try_all_nodes fp fn pGraph pVertex srg state nodes
      else (case isVertexCompatible fp fn pGraph pVertex srg (snd node) of
              Inl e \<Rightarrow> Inl (Thrown e)
            | Inr ok \<Rightarrow>
                (if \<not> ok then try_all_nodes fp fn pGraph pVertex srg state nodes
                 else (case addMatchedVertex pVertex (snd node) state of
                         Inl e \<Rightarrow> Inl e
                       | Inr s \<Rightarrow>
                           (case try_all_nodes fp fn pGraph pVertex srg state nodes of
                              Inl e \<Rightarrow> Inl e
                            | Inr ss \<Rightarrow> Inr (s # ss))))))"

definition match_vertex ::
  "'d numerics \<Rightarrow> 'd function_semantics \<Rightarrow> 'd Pattern \<Rightarrow> 'd SRGraph \<Rightarrow> 'd EdgeMatching \<Rightarrow>
    SearchPlanElement \<Rightarrow> match_error + 'd EdgeMatching list" where
  "match_vertex fp fn p srg state step =
     (case m_pNode step of
        None \<Rightarrow> Inl (Thrown NullPointer)
      | Some pVertex \<Rightarrow>
          (if isPatternVertexMatched state pVertex
           then (case getCorrespondingSrgVertex state pVertex of
                   Inl e \<Rightarrow> Inl (Thrown e)
                 | Inr v \<Rightarrow>
                     (case isVertexCompatible fp fn (m_Graph p) pVertex srg v of
                        Inl e \<Rightarrow> Inl (Thrown e)
                      | Inr ok \<Rightarrow> Inr (if ok then [state] else [])))
           else (let sId = m_sId step
                 in if sId = []
                    then try_all_nodes fp fn (m_Graph p) pVertex srg state (m_Nodes srg)
                    else if SRGraph_hasNode srg sId
                    then (case SRGraph_getNode srg sId of
                            Inl e \<Rightarrow> Inl (Thrown e)
                          | Inr v \<Rightarrow>
                              (case addMatchedVertex pVertex v state of
                                 Inl e \<Rightarrow> Inl e
                               | Inr s \<Rightarrow> Inr [s]))
                    else Inr [])))"

section \<open>The SRG manager (utGraph/UTQLSRGManager.h)\<close>

text \<open>
  An \<^verbatim>\<open>InstantiatedPattern\<close> is a shared pointer to a subgraph, which may be null, and a
  client id.
\<close>

record 'd InstantiatedPattern =
  instance_subgraph :: "'d UTQLSubgraph option"
  instance_clientId :: string

datatype KnownAttributeType = biggerIsBetter | smallerIsBetter

text \<open>
  The manager. \<open>patternApplicationID\<close> is the function-static counter of
  \<^verbatim>\<open>applyDetectedPattern\<close>, which starts at 2000.
\<close>

record 'd UTQLSRGManager =
  m_GlobalSrg :: "'d SRGraph"
  m_GraphRepository :: "(string, 'd InstantiatedPattern) std_map"
  m_Patterns :: "'d Pattern list"
  m_ActiveQueries :: "'d Pattern list"
  m_knownAttributes :: "(string, KnownAttributeType) std_map"
  patternApplicationID :: int

definition update_node ::
  "nat \<Rightarrow> ('na \<Rightarrow> 'na) \<Rightarrow> ('na, 'ea, 'z) Graph_scheme \<Rightarrow> ('na, 'ea, 'z) Graph_scheme" where
  "update_node p f g =
     g\<lparr>node_objects := (node_objects g)
         (p := map_option (\<lambda>n. n\<lparr>node_attributes := f (node_attributes n)\<rparr>) (node_objects g p))\<rparr>"

definition update_edge ::
  "nat \<Rightarrow> ('ea \<Rightarrow> 'ea) \<Rightarrow> ('na, 'ea, 'z) Graph_scheme \<Rightarrow> ('na, 'ea, 'z) Graph_scheme" where
  "update_edge p f g =
     g\<lparr>edge_objects := (edge_objects g)
         (p := map_option (\<lambda>e. e\<lparr>edge_attributes := f (edge_attributes e)\<rparr>) (edge_objects g p))\<rparr>"

subsection \<open>Stage 1 of the acceptance\<close>

text \<open>
  \<^verbatim>\<open>decidePattern1\<close>, compiled with \<^verbatim>\<open>MATCHING_EDGE_REQUIREMENTS\<close> set to
  \<^verbatim>\<open>ERQ_DISJOINT_INFORMATION_SOURCES\<close>: for every two different entries of the edge
  correspondence, no information source of the first SRG edge is one of the second. The
  matched SRG edges are dereferenced; an expired one is an error.
\<close>

definition shares_source :: "string std_set \<Rightarrow> string std_set \<Rightarrow> bool" where
  "shares_source a b = list_ex (\<lambda>itSet. itSet \<in> set b) a"

definition sources_of :: "'d SRGraph \<Rightarrow> nat \<Rightarrow> string std_set" where
  "sources_of srg f =
     (case edge_objects srg f of None \<Rightarrow> [] | Some e \<Rightarrow> m_InformationSources (edge_attributes e))"

definition decidePattern1 :: "'d SRGraph \<Rightarrow> 'd EdgeMatching \<Rightarrow> graph_error + bool" where
  "decidePattern1 srg matching =
     (let fwd = m_edgeForwardMap matching
      in if length fwd > 1
         then (if list_ex (\<lambda>it. edge_objects srg (snd it) = None) fwd then Inl NullPointer
               else Inr (\<not> list_ex (\<lambda>it. list_ex (\<lambda>itOther.
                            it \<noteq> itOther \<and>
                            shares_source (sources_of srg (snd (fwd ! it)))
                              (sources_of srg (snd (fwd ! itOther))))
                          [0..<length fwd]) [0..<length fwd]))
         else Inr True)"

subsection \<open>Expansion of a matching\<close>

definition insert_range :: "string std_set \<Rightarrow> string std_set \<Rightarrow> string std_set" where
  "insert_range s xs = foldl set_insert s xs"

text \<open>The loop over the input edges of the pattern.\<close>

fun expand_input_edges ::
  "'d UTQLSubgraph \<Rightarrow> 'd SRGraph \<Rightarrow> (string \<times> nat) list \<Rightarrow> 'd EdgeMatching \<Rightarrow>
    graph_error + 'd EdgeMatching" where
  "expand_input_edges pGraph srg [] matching = Inr matching"
| "expand_input_edges pGraph srg (it # rest) matching =
     (case edge_objects pGraph (snd it) of
        None \<Rightarrow> Inl NullPointer
      | Some patternEdge \<Rightarrow>
          (if isInput (edge_attributes patternEdge)
           then (case getCorrespondingSrgEdge matching (snd it) of
                   Inl e \<Rightarrow> Inl e
                 | Inr srgEdge \<Rightarrow>
                     (case edge_objects srg srgEdge of
                        None \<Rightarrow> Inl NullPointer
                      | Some se \<Rightarrow>
                          expand_input_edges pGraph srg rest
                            (matching
                               \<lparr>m_allInputAttributes :=
                                  map_assign (m_allInputAttributes matching) (edge_Name patternEdge)
                                    (SrgEdge srgEdge),
                                m_informationSources :=
                                  insert_range (m_informationSources matching)
                                    (m_InformationSources (edge_attributes se))\<rparr>)))
           else expand_input_edges pGraph srg rest matching))"

text \<open>The loop over the input nodes of the pattern.\<close>

fun expand_input_nodes ::
  "'d UTQLSubgraph \<Rightarrow> (string \<times> nat) list \<Rightarrow> 'd EdgeMatching \<Rightarrow> graph_error + 'd EdgeMatching" where
  "expand_input_nodes pGraph [] matching = Inr matching"
| "expand_input_nodes pGraph (it # rest) matching =
     (case node_objects pGraph (snd it) of
        None \<Rightarrow> Inl NullPointer
      | Some patternNode \<Rightarrow>
          (if isInput (node_attributes patternNode)
           then (case getCorrespondingSrgVertex matching (snd it) of
                   Inl e \<Rightarrow> Inl e
                 | Inr srgNode \<Rightarrow>
                     expand_input_nodes pGraph rest
                       (matching
                          \<lparr>m_allInputAttributes :=
                             map_assign (m_allInputAttributes matching) (node_Name patternNode)
                               (SrgNode srgNode)\<rparr>))
           else expand_input_nodes pGraph rest matching))"

text \<open>
  \<^verbatim>\<open>EvaluationContext( matching )\<close>, with the pointers of \<open>m_allInputAttributes\<close> followed
  into the SRG.
\<close>

definition resolve :: "'d SRGraph \<Rightarrow> attribute_ref \<Rightarrow> 'd KeyValueAttributes" where
  "resolve srg r =
     (case r of
        SrgEdge f \<Rightarrow> (case edge_objects srg f of None \<Rightarrow> [] | Some e \<Rightarrow> m_Values (edge_attributes e))
      | SrgNode v \<Rightarrow> (case node_objects srg v of None \<Rightarrow> [] | Some n \<Rightarrow> m_Values (node_attributes n)))"

definition global_context :: "'d SRGraph \<Rightarrow> 'd EdgeMatching \<Rightarrow> 'd EvaluationContext" where
  "global_context srg matching =
     \<lparr>m_pNodeEdgeAttributes = None, m_pPatternAttributes = None,
      m_pMatching = Some \<lparr>allInputAttributes = map (\<lambda>(k, r). (k, resolve srg r)) (m_allInputAttributes matching),
                          informationSources = m_informationSources matching\<rparr>\<rparr>"

text \<open>
  The attribute expressions of one output node or edge. A \<^verbatim>\<open>Util::Exception\<close> is caught
  and the attribute is left out; the other errors are not exceptions and end the run.
\<close>

fun expand_expressions ::
  "'d numerics \<Rightarrow> 'd function_semantics \<Rightarrow> 'd EvaluationContext \<Rightarrow>
    (string \<times> 'd AttributeExpression) list \<Rightarrow> 'd KeyValueAttributes \<Rightarrow> graph_error + 'd KeyValueAttributes" where
  "expand_expressions fp fn c [] newAttributes = Inr newAttributes"
| "expand_expressions fp fn c (itExp # rest) newAttributes =
     (case evaluate_expression fp fn c (snd itExp) of
        Inr v \<Rightarrow> expand_expressions fp fn c rest (setAttribute newAttributes (fst itExp) v)
      | Inl (ValueError (NoNumber s)) \<Rightarrow> expand_expressions fp fn c rest newAttributes
      | Inl (GraphError (Exception s)) \<Rightarrow> expand_expressions fp fn c rest newAttributes
      | Inl (ValueError UninitialisedDouble) \<Rightarrow> Inl NullPointer
      | Inl (GraphError NullPointer) \<Rightarrow> Inl NullPointer)"

fun expand_output_edges ::
  "'d numerics \<Rightarrow> 'd function_semantics \<Rightarrow> 'd UTQLSubgraph \<Rightarrow> 'd SRGraph \<Rightarrow> (string \<times> nat) list \<Rightarrow>
    'd EdgeMatching \<Rightarrow> graph_error + 'd EdgeMatching" where
  "expand_output_edges fp fn pGraph srg [] matching = Inr matching"
| "expand_output_edges fp fn pGraph srg (it # rest) matching =
     (case edge_objects pGraph (snd it) of
        None \<Rightarrow> Inl NullPointer
      | Some patternEdge \<Rightarrow>
          (if isOutput (edge_attributes patternEdge)
           then (case expand_expressions fp fn (global_context srg matching)
                        (m_attributeExpressions (edge_attributes patternEdge))
                        (m_Values (edge_attributes patternEdge)) of
                   Inl e \<Rightarrow> Inl e
                 | Inr newAttributes \<Rightarrow>
                     expand_output_edges fp fn pGraph srg rest
                       (matching\<lparr>m_expandedEdgeAttributes :=
                          map_assign (m_expandedEdgeAttributes matching) (edge_Name patternEdge)
                            newAttributes\<rparr>))
           else expand_output_edges fp fn pGraph srg rest matching))"

fun expand_output_nodes ::
  "'d numerics \<Rightarrow> 'd function_semantics \<Rightarrow> 'd UTQLSubgraph \<Rightarrow> 'd SRGraph \<Rightarrow> (string \<times> nat) list \<Rightarrow>
    'd EdgeMatching \<Rightarrow> graph_error + 'd EdgeMatching" where
  "expand_output_nodes fp fn pGraph srg [] matching = Inr matching"
| "expand_output_nodes fp fn pGraph srg (it # rest) matching =
     (case node_objects pGraph (snd it) of
        None \<Rightarrow> Inl NullPointer
      | Some patternNode \<Rightarrow>
          (if isOutput (node_attributes patternNode)
           then (case expand_expressions fp fn (global_context srg matching)
                        (m_attributeExpressions (node_attributes patternNode))
                        (m_Values (node_attributes patternNode)) of
                   Inl e \<Rightarrow> Inl e
                 | Inr newAttributes \<Rightarrow>
                     expand_output_nodes fp fn pGraph srg rest
                       (matching\<lparr>m_expandedNodeAttributes :=
                          map_assign (m_expandedNodeAttributes matching) (node_Name patternNode)
                            newAttributes\<rparr>))
           else expand_output_nodes fp fn pGraph srg rest matching))"

text \<open>\<^verbatim>\<open>expandMatchingAttributes\<close>: the three clears and the four loops.\<close>

definition expandMatchingAttributes ::
  "'d numerics \<Rightarrow> 'd function_semantics \<Rightarrow> 'd Pattern \<Rightarrow> 'd SRGraph \<Rightarrow> 'd EdgeMatching \<Rightarrow>
    graph_error + 'd EdgeMatching" where
  "expandMatchingAttributes fp fn pattern srg matching =
     (let pGraph = m_Graph pattern;
          m0 = matching\<lparr>m_informationSources := [], m_expandedNodeAttributes := [],
                        m_expandedEdgeAttributes := []\<rparr>
      in case expand_input_edges pGraph srg (m_Edges pGraph) m0 of
           Inl e \<Rightarrow> Inl e
         | Inr m1 \<Rightarrow>
             (case expand_input_nodes pGraph (m_Nodes pGraph) m1 of
                Inl e \<Rightarrow> Inl e
              | Inr m2 \<Rightarrow>
                  (case expand_output_edges fp fn pGraph srg (m_Edges pGraph) m2 of
                     Inl e \<Rightarrow> Inl e
                   | Inr m3 \<Rightarrow> expand_output_nodes fp fn pGraph srg (m_Nodes pGraph) m3)))"

subsection \<open>Instantiation\<close>

text \<open>
  \<^verbatim>\<open>instanciatePattern\<close> builds the instance subgraph. It also writes to the matching and to
  the pattern: the expanded attributes of an output node are swapped into the node of the
  registered pattern, those of an output edge into the edge of the instance.
\<close>

record 'd instance_state =
  inst_subgraph :: "'d UTQLSubgraph"
  newNodesMap :: "(string, nat) std_map"
  inst_matching :: "'d EdgeMatching"
  inst_pattern :: "'d UTQLSubgraph"

definition expanded_entry :: "(string, 'd KeyValueAttributes) std_map \<Rightarrow> string \<Rightarrow> 'd KeyValueAttributes" where
  "expanded_entry m k = (case map_find m k of None \<Rightarrow> [] | Some kv \<Rightarrow> kv)"

fun instantiate_nodes ::
  "'d SRGraph \<Rightarrow> (string \<times> nat) list \<Rightarrow> 'd instance_state \<Rightarrow> graph_error + 'd instance_state" where
  "instantiate_nodes srg [] s = Inr s"
| "instantiate_nodes srg (it # rest) s =
     (case node_objects (inst_pattern s) (snd it) of
        None \<Rightarrow> Inl NullPointer
      | Some patternNode \<Rightarrow>
          (case getCorrespondingSrgVertex (inst_matching s) (snd it) of
             Inl e \<Rightarrow> Inl e
           | Inr srgNodePtr \<Rightarrow>
               (case node_objects srg srgNodePtr of
                  None \<Rightarrow> Inl NullPointer
                | Some srgNode \<Rightarrow>
                    (case addNode (node_Name patternNode) (node_attributes patternNode) (inst_subgraph s) of
                       Inl e \<Rightarrow> Inl e
                     | Inr (utqlNode, sg) \<Rightarrow>
                         (let sg1 = update_node utqlNode
                                (\<lambda>a. a\<lparr>m_Values := mergeAttributes (m_Values a) (m_Values (node_attributes srgNode)),
                                       m_QualifiedName := node_Name srgNode,
                                       m_predicateList := []\<rparr>) sg;
                              s1 = s\<lparr>inst_subgraph := sg1,
                                     newNodesMap := map_assign (newNodesMap s) (node_Name patternNode) utqlNode\<rparr>
                          in instantiate_nodes srg rest
                               (if isOutput (node_attributes patternNode)
                                then s1\<lparr>inst_pattern :=
                                          update_node (snd it)
                                            (\<lambda>a. a\<lparr>m_Values :=
                                               expanded_entry (m_expandedNodeAttributes (inst_matching s))
                                                 (node_Name patternNode)\<rparr>)
                                            (inst_pattern s),
                                        inst_matching :=
                                          (inst_matching s)
                                            \<lparr>m_expandedNodeAttributes :=
                                               map_assign (m_expandedNodeAttributes (inst_matching s))
                                                 (node_Name patternNode)
                                                 (m_Values (node_attributes patternNode))\<rparr>\<rparr>
                                else s1))))))"

text \<open>The end points of a pattern edge, looked up in \<open>newNodesMap\<close> by their names.\<close>

definition instance_end ::
  "'d instance_state \<Rightarrow> nat option \<Rightarrow> graph_error + nat" where
  "instance_end s weak =
     (case weak of
        None \<Rightarrow> Inl NullPointer
      | Some p \<Rightarrow>
          (case node_objects (inst_pattern s) p of
             None \<Rightarrow> Inl NullPointer
           | Some n \<Rightarrow>
               (case map_find (newNodesMap s) (node_Name n) of
                  None \<Rightarrow> Inl NullPointer
                | Some q \<Rightarrow> Inr q)))"

definition instantiate_input_edge ::
  "'d SRGraph \<Rightarrow> nat \<Rightarrow> 'd UTQLEdge GraphEdge \<Rightarrow> nat \<Rightarrow> nat \<Rightarrow> 'd instance_state \<Rightarrow>
    graph_error + 'd instance_state" where
  "instantiate_input_edge srg pe patternEdge source target s =
     (case addEdge (edge_Name patternEdge) source target (UTQLEdge_new Input) (inst_subgraph s) of
        Inl e \<Rightarrow> Inl e
      | Inr (utqlEdge, sg) \<Rightarrow>
          (case getCorrespondingSrgEdge (inst_matching s) pe of
             Inl e \<Rightarrow> Inl e
           | Inr srgEdgePtr \<Rightarrow>
               (case edge_objects srg srgEdgePtr of
                  None \<Rightarrow> Inl NullPointer
                | Some srgEdge \<Rightarrow>
                    (case EdgeReference_new (m_SubgraphID (edge_attributes srgEdge))
                            (m_LocalName (edge_attributes srgEdge)) of
                       Inl e \<Rightarrow> Inl e
                     | Inr edgeRef \<Rightarrow>
                         Inr (s\<lparr>inst_subgraph :=
                                  update_edge utqlEdge
                                    (\<lambda>a. a\<lparr>m_Values := mergeAttributes (m_Values a)
                                                            (m_Values (edge_attributes srgEdge)),
                                           m_EdgeReference := edgeRef\<rparr>) sg\<rparr>)))))"

definition instantiate_output_edge ::
  "'d UTQLEdge GraphEdge \<Rightarrow> nat \<Rightarrow> nat \<Rightarrow> 'd instance_state \<Rightarrow> graph_error + 'd instance_state" where
  "instantiate_output_edge patternEdge source target s =
     (case addEdge (edge_Name patternEdge) source target (UTQLEdge_new Output) (inst_subgraph s) of
        Inl e \<Rightarrow> Inl e
      | Inr (utqlEdge, sg) \<Rightarrow>
          (let old = (case edge_objects sg utqlEdge of None \<Rightarrow> [] | Some e \<Rightarrow> m_Values (edge_attributes e))
           in Inr (s\<lparr>inst_subgraph :=
                       update_edge utqlEdge
                         (\<lambda>a. a\<lparr>m_Values :=
                                  expanded_entry (m_expandedEdgeAttributes (inst_matching s))
                                    (edge_Name patternEdge),
                                m_InformationSources := m_informationSources (inst_matching s)\<rparr>) sg,
                     inst_matching :=
                       (inst_matching s)
                         \<lparr>m_expandedEdgeAttributes :=
                            map_assign (m_expandedEdgeAttributes (inst_matching s))
                              (edge_Name patternEdge) old\<rparr>\<rparr>)))"

fun instantiate_edges ::
  "'d SRGraph \<Rightarrow> (string \<times> nat) list \<Rightarrow> 'd instance_state \<Rightarrow> graph_error + 'd instance_state" where
  "instantiate_edges srg [] s = Inr s"
| "instantiate_edges srg (it # rest) s =
     (case edge_objects (inst_pattern s) (snd it) of
        None \<Rightarrow> Inl NullPointer
      | Some patternEdge \<Rightarrow>
          (case instance_end s (m_Source patternEdge) of
             Inl e \<Rightarrow> Inl e
           | Inr source \<Rightarrow>
               (case instance_end s (m_Target patternEdge) of
                  Inl e \<Rightarrow> Inl e
                | Inr target \<Rightarrow>
                    (case (if isInput (edge_attributes patternEdge)
                           then instantiate_input_edge srg (snd it) patternEdge source target s
                           else Inr s) of
                       Inl e \<Rightarrow> Inl e
                     | Inr s1 \<Rightarrow>
                         (case (if isOutput (edge_attributes patternEdge)
                                then instantiate_output_edge patternEdge source target s1
                                else Inr s1) of
                            Inl e \<Rightarrow> Inl e
                          | Inr s2 \<Rightarrow> instantiate_edges srg rest s2)))))"

definition instanciatePattern ::
  "'d Pattern \<Rightarrow> 'd SRGraph \<Rightarrow> 'd EdgeMatching \<Rightarrow> graph_error + 'd instance_state" where
  "instanciatePattern pattern srg matching =
     (let s0 = \<lparr>inst_subgraph =
                  UTQLSubgraph_new
                    \<lparr>m_Name := pattern_Name pattern,
                     m_DataflowConfiguration := m_DataflowConfiguration (m_Graph pattern),
                     m_DataflowAttributes := m_DataflowAttributes (m_Graph pattern)\<rparr>,
                newNodesMap = [], inst_matching = matching, inst_pattern = m_Graph pattern\<rparr>
      in case instantiate_nodes srg (m_Nodes (m_Graph pattern)) s0 of
           Inl e \<Rightarrow> Inl e
         | Inr s1 \<Rightarrow> instantiate_edges srg (m_Edges (m_Graph pattern)) s1)"

subsection \<open>Applying a detected pattern\<close>

text \<open>
  The loop of \<^verbatim>\<open>applyDetectedPattern\<close> over the edges of the pattern: an input edge
  registers the new subgraph with the SRG edge it is matched to, an output edge is
  inserted into the SRG under the name \<open>id:name\<close> and then given the information sources
  of the matching and the name of the pattern.
\<close>

definition insert_output_edge ::
  "'d Pattern \<Rightarrow> 'd UTQLSubgraph \<Rightarrow> 'd EdgeMatching \<Rightarrow> 'd UTQLEdge GraphEdge \<Rightarrow> 'd SRGraph \<Rightarrow>
    graph_error + 'd SRGraph" where
  "insert_output_edge pattern subgraph matching edge srg =
     (case (m_Source edge, m_Target edge) of
        (Some ps, Some pt) \<Rightarrow>
          (case getCorrespondingSrgVertex matching ps of
             Inl e \<Rightarrow> Inl e
           | Inr source \<Rightarrow>
               (case getCorrespondingSrgVertex matching pt of
                  Inl e \<Rightarrow> Inl e
                | Inr target \<Rightarrow>
                    (case getEdge subgraph (edge_Name edge) of
                       Inl e \<Rightarrow> Inl e
                     | Inr ie \<Rightarrow>
                         (case edge_objects subgraph ie of
                            None \<Rightarrow> Inl NullPointer
                          | Some instanceEdge \<Rightarrow>
                              (case addEdge (m_ID subgraph @ '':'' @ edge_Name edge) source target
                                      (SRGEdgeAttributes_new (edge_attributes instanceEdge)
                                         (m_ID subgraph) (edge_Name edge)) srg of
                                 Inl e \<Rightarrow> Inl e
                               | Inr (e, srg1) \<Rightarrow>
                                   Inr (update_edge e
                                          (\<lambda>a. a\<lparr>m_InformationSources := m_informationSources matching,
                                                 m_PatternName := pattern_Name pattern\<rparr>) srg1))))))
      | _ \<Rightarrow> Inl NullPointer)"

fun apply_edges ::
  "'d Pattern \<Rightarrow> 'd UTQLSubgraph \<Rightarrow> 'd EdgeMatching \<Rightarrow> 'd UTQLSubgraph \<Rightarrow> (string \<times> nat) list \<Rightarrow>
    'd SRGraph \<Rightarrow> graph_error + 'd SRGraph" where
  "apply_edges pattern subgraph matching pGraph [] srg = Inr srg"
| "apply_edges pattern subgraph matching pGraph (it # rest) srg =
     (case edge_objects pGraph (snd it) of
        None \<Rightarrow> Inl NullPointer
      | Some edge \<Rightarrow>
          (if isInput (edge_attributes edge)
           then (case getCorrespondingSrgEdge matching (snd it) of
                   Inl e \<Rightarrow> Inl e
                 | Inr srgEdge \<Rightarrow>
                     (if edge_objects srg srgEdge = None then Inl NullPointer
                      else apply_edges pattern subgraph matching pGraph rest
                             (update_edge srgEdge
                                (\<lambda>a. a\<lparr>m_DependantSubgraphIDs :=
                                         set_insert (m_DependantSubgraphIDs a) (m_ID subgraph)\<rparr>) srg)))
           else if isOutput (edge_attributes edge)
           then (case insert_output_edge pattern subgraph matching edge srg of
                   Inl e \<Rightarrow> Inl e
                 | Inr srg1 \<Rightarrow> apply_edges pattern subgraph matching pGraph rest srg1)
           else apply_edges pattern subgraph matching pGraph rest srg))"

text \<open>
  \<^verbatim>\<open>applyDetectedPattern\<close>: the new manager, the matching and the pattern as the
  instantiation left them.
\<close>

definition applyDetectedPattern ::
  "'d Pattern \<Rightarrow> 'd EdgeMatching \<Rightarrow> 'd UTQLSRGManager \<Rightarrow>
    graph_error + ('d UTQLSRGManager \<times> 'd EdgeMatching \<times> 'd Pattern)" where
  "applyDetectedPattern pattern matching mgr =
     (let oss = pattern_Name pattern @ show_long (patternApplicationID mgr);
          mgr1 = mgr\<lparr>patternApplicationID := patternApplicationID mgr + 1\<rparr>
      in case instanciatePattern pattern (m_GlobalSrg mgr1) matching of
           Inl e \<Rightarrow> Inl e
         | Inr inst \<Rightarrow>
             (let subgraph = (inst_subgraph inst)\<lparr>m_ID := oss\<rparr>;
                  pattern1 = pattern\<lparr>m_Graph := inst_pattern inst\<rparr>
              in case apply_edges pattern1 subgraph (inst_matching inst) (m_Graph pattern1)
                        (m_Edges (m_Graph pattern1)) (m_GlobalSrg mgr1) of
                   Inl e \<Rightarrow> Inl e
                 | Inr srg \<Rightarrow>
                     Inr (mgr1\<lparr>m_GlobalSrg := srg,
                               m_GraphRepository :=
                                 map_assign (m_GraphRepository mgr1) oss
                                   \<lparr>instance_subgraph = Some subgraph,
                                    instance_clientId = m_clientId pattern\<rparr>\<rparr>,
                          inst_matching inst, pattern1)))"

subsection \<open>Applying a pattern\<close>

text \<open>
  Stage 2 of the acceptance, \<^verbatim>\<open>decidePattern2\<close>, compares attribute values in floating
  point arithmetic and reads the SRG without changing it. It is a parameter here: its
  verdict and the subgraphs the new instance supersedes.
\<close>

type_synonym 'd stage2 =
  "'d Pattern \<Rightarrow> 'd EdgeMatching \<Rightarrow> 'd UTQLSRGManager \<Rightarrow> graph_error + (bool \<times> string list)"

text \<open>
  The body of the loop of \<^verbatim>\<open>applyPattern\<close> for one matching: the manager, the pattern,
  whether an instance was made, and what it supersedes.
\<close>

definition apply_matching ::
  "'d numerics \<Rightarrow> 'd function_semantics \<Rightarrow> 'd stage2 \<Rightarrow> 'd EdgeMatching \<Rightarrow>
    'd Pattern \<times> 'd UTQLSRGManager \<Rightarrow>
    graph_error + (('d Pattern \<times> 'd UTQLSRGManager) \<times> bool \<times> string list)" where
  "apply_matching fp fn decidePattern2 it s =
     (case s of (pattern, mgr) \<Rightarrow>
        (case decidePattern1 (m_GlobalSrg mgr) it of
           Inl e \<Rightarrow> Inl e
         | Inr ok1 \<Rightarrow>
             if \<not> ok1 then Inr ((pattern, mgr), False, [])
             else (case expandMatchingAttributes fp fn pattern (m_GlobalSrg mgr) it of
                     Inl e \<Rightarrow> Inl e
                   | Inr expanded \<Rightarrow>
                       (case decidePattern2 pattern expanded mgr of
                          Inl e \<Rightarrow> Inl e
                        | Inr (ok2, supersedes) \<Rightarrow>
                            if \<not> ok2 then Inr ((pattern, mgr), False, [])
                            else (case applyDetectedPattern pattern expanded mgr of
                                    Inl e \<Rightarrow> Inl e
                                  | Inr (mgr1, m1, pattern1) \<Rightarrow>
                                      Inr ((pattern1, mgr1), True, supersedes))))))"

section \<open>The dataflow network (utDataflow/DataflowNetwork.h, DataflowNetwork.cpp)\<close>

text \<open>
  A component, as far as the network reads and writes it: its name (\<^verbatim>\<open>m_name\<close>, read by
  \<^verbatim>\<open>getName\<close>) and its event priority, a C++ \<^verbatim>\<open>int\<close> that \<^verbatim>\<open>setEventPriority\<close> stores as
  it is.
\<close>

record Component =
  component_name :: string
  m_eventPriority :: int

record DataflowNetworkSide =
  m_componentName :: string
  m_portName :: string

record DataflowNetworkConnection =
  m_source :: DataflowNetworkSide
  m_destination :: DataflowNetworkSide

text \<open>
  The network. The components live in a store and a \<^verbatim>\<open>shared_ptr< Component >\<close> is an
  address in it, or null; so the same component can stand under two keys of
  \<open>m_componentIDMap\<close>. A \<^verbatim>\<open>ConnectionSet\<close> is the list of its connections in the order of
  iteration.
\<close>

record DataflowNetwork =
  components :: "nat \<Rightarrow> Component"
  m_componentIDMap :: "(string, nat option) std_map"
  m_inConnectionMap :: "(string, DataflowNetworkConnection std_set) std_map"
  m_outConnectionMap :: "(string, DataflowNetworkConnection std_set) std_map"

datatype dataflow_error = NullComponent

text \<open>
  \<^verbatim>\<open>m[ k ]\<close> as an rvalue: the value under the key, and the map, which gets a
  default-constructed entry when the key is missing.
\<close>

definition map_index :: "('k::linorder, 'v) std_map \<Rightarrow> 'k \<Rightarrow> 'v \<Rightarrow> 'v \<times> ('k, 'v) std_map" where
  "map_index m k d =
     (case map_find m k of
        Some v \<Rightarrow> (v, m)
      | None \<Rightarrow> (d, map_insert m k d))"

definition setEventPriority :: "nat \<Rightarrow> int \<Rightarrow> DataflowNetwork \<Rightarrow> DataflowNetwork" where
  "setEventPriority c p net =
     net\<lparr>components := (components net)(c := (components net c)\<lparr>m_eventPriority := p\<rparr>)\<rparr>"

definition getEventPriority :: "DataflowNetwork \<Rightarrow> nat \<Rightarrow> int" where
  "getEventPriority net c = m_eventPriority (components net c)"

definition DFN_MAX_PATHLENGTH :: int where
  "DFN_MAX_PATHLENGTH = 255"

subsection \<open>\<^verbatim>\<open>assignEventPriorities\<close>\<close>

text \<open>The first loop: every entry of \<open>m_componentIDMap\<close> is dereferenced.\<close>

fun clear_priorities ::
  "(string \<times> nat option) list \<Rightarrow> DataflowNetwork \<Rightarrow> dataflow_error + DataflowNetwork" where
  "clear_priorities [] net = Inr net"
| "clear_priorities (it # rest) net =
     (case snd it of
        None \<Rightarrow> Inl NullComponent
      | Some c \<Rightarrow> clear_priorities rest (setEventPriority c DFN_MAX_PATHLENGTH net))"

text \<open>
  \<^verbatim>\<open>AEPSearchInfo\<close>. The vector \<open>search\<close> is used as a stack; it is kept here back to
  front, so that its head is \<^verbatim>\<open>search.back()\<close>. The set \<open>visiting\<close> holds raw pointers.
\<close>

record AEPSearchInfo =
  search_priority :: int
  pComponent :: "nat option"

text \<open>
  The loop over the incoming connections: \<^verbatim>\<open>m_componentIDMap[ name ]\<close> makes a null entry
  for a name that is not registered, and the pointer is pushed unless it is in \<open>visiting\<close>.
\<close>

fun queue_ancestors ::
  "int \<Rightarrow> nat option std_set \<Rightarrow> DataflowNetworkConnection list \<Rightarrow>
    (string, nat option) std_map \<times> AEPSearchInfo list \<Rightarrow>
    (string, nat option) std_map \<times> AEPSearchInfo list" where
  "queue_ancestors prio visiting [] s = s"
| "queue_ancestors prio visiting (itIn # rest) s =
     (case s of (idMap, search) \<Rightarrow>
        (case map_index idMap (m_componentName (m_source itIn)) None of
           (p, idMap1) \<Rightarrow>
             queue_ancestors prio visiting rest
               (idMap1,
                if p \<notin> set visiting
                then \<lparr>search_priority = prio, pComponent = p\<rparr> # search
                else search)))"

text \<open>
  The \<^verbatim>\<open>else\<close> branch of the search loop, for the entry \<open>back\<close> at the back of the vector
  and the entries \<open>rest\<close> before it: the network, the vector and the set afterwards.
\<close>

definition visit ::
  "DataflowNetwork \<Rightarrow> AEPSearchInfo \<Rightarrow> AEPSearchInfo list \<Rightarrow> nat option std_set \<Rightarrow>
    dataflow_error + (DataflowNetwork \<times> AEPSearchInfo list \<times> nat option std_set)" where
  "visit net back rest visiting =
     (case pComponent back of
        None \<Rightarrow> Inl NullComponent
      | Some c \<Rightarrow>
          (let prio = search_priority back;
               net1 = (if getEventPriority net c > prio then setEventPriority c prio net else net);
               visiting1 = set_insert visiting (Some c)
           in case map_index (m_inConnectionMap net1) (component_name (components net1 c)) [] of
                (inConns, inMap) \<Rightarrow>
                  (case queue_ancestors (prio - 1) visiting1 inConns
                          (m_componentIDMap net1, back\<lparr>search_priority := - 1\<rparr> # rest) of
                     (idMap, search) \<Rightarrow>
                       Inr (net1\<lparr>m_inConnectionMap := inMap, m_componentIDMap := idMap\<rparr>,
                            search, visiting1))))"

text \<open>
  The bound of the termination argument: an entry of priority \<open>q \<ge> 0\<close> is replaced by a
  marker and at most \<open>d\<close> entries of priority \<open>q - 1\<close>, where \<open>d\<close> is the largest number of
  incoming connections of a component.
\<close>

fun search_weight :: "nat \<Rightarrow> nat \<Rightarrow> nat" where
  "search_weight d 0 = 1"
| "search_weight d (Suc n) = 2 + d * search_weight d n"

definition max_fanin :: "DataflowNetwork \<Rightarrow> nat" where
  "max_fanin net = foldr (\<lambda>it n. max (length (snd it)) n) (m_inConnectionMap net) 0"

definition search_size :: "DataflowNetwork \<Rightarrow> AEPSearchInfo list \<Rightarrow> nat" where
  "search_size net search =
     sum_list (map (\<lambda>e. search_weight (max_fanin net) (nat (search_priority e + 1))) search)"

text \<open>
  The loop \<^verbatim>\<open>while ( !search.empty() )\<close>. That it ends on every network is proved with
  the properties of the dataflow network, as is the end of the loop over the components.
\<close>

function search_loop ::
  "DataflowNetwork \<Rightarrow> AEPSearchInfo list \<Rightarrow> nat option std_set \<Rightarrow>
    dataflow_error + DataflowNetwork" where
  "search_loop net [] visiting = Inr net"
| "search_loop net (back # rest) visiting =
     (if search_priority back < 0
      then search_loop net rest (set_erase visiting (pComponent back))
      else (case visit net back rest visiting of
              Inl e \<Rightarrow> Inl e
            | Inr (net1, search1, visiting1) \<Rightarrow> search_loop net1 search1 visiting1))"
  by pat_completeness auto

text \<open>
  The second loop runs over \<open>m_componentIDMap\<close> while the search may add entries to it. An
  iterator is the key it stands at, or nothing before \<^verbatim>\<open>begin()\<close>; \<^verbatim>\<open>it++\<close> moves to the first
  entry behind this key in the map as it is then.
\<close>

definition behind_pos :: "string option \<Rightarrow> string \<Rightarrow> bool" where
  "behind_pos pos k = (case pos of None \<Rightarrow> True | Some l \<Rightarrow> l < k)"

definition entries_after :: "(string, 'v) std_map \<Rightarrow> string option \<Rightarrow> (string \<times> 'v) list" where
  "entries_after m pos = filter (\<lambda>it. behind_pos pos (fst it)) m"

text \<open>The body of the second loop for the entry \<open>it\<close>.\<close>

definition search_from_sink ::
  "string \<times> nat option \<Rightarrow> DataflowNetwork \<Rightarrow> dataflow_error + DataflowNetwork" where
  "search_from_sink it net =
     (case map_index (m_outConnectionMap net) (fst it) [] of
        (outConns, outMap) \<Rightarrow>
          (let net1 = net\<lparr>m_outConnectionMap := outMap\<rparr>
           in if outConns = []
              then search_loop net1 [\<lparr>search_priority = DFN_MAX_PATHLENGTH, pComponent = snd it\<rparr>] []
              else Inr net1))"

text \<open>
  The names that can become keys of \<open>m_componentIDMap\<close>: its keys and the sources of the
  incoming connections.
\<close>

definition component_names :: "DataflowNetwork \<Rightarrow> string set" where
  "component_names net =
     fst ` set (m_componentIDMap net) \<union>
     (\<Union>it\<in>set (m_inConnectionMap net). (\<lambda>c. m_componentName (m_source c)) ` set (snd it))"

definition names_after :: "string option \<Rightarrow> DataflowNetwork \<Rightarrow> string set" where
  "names_after pos net =
     {k \<in> component_names net. behind_pos pos k}"

function sinks_loop :: "string option \<Rightarrow> DataflowNetwork \<Rightarrow> dataflow_error + DataflowNetwork" where
  "sinks_loop pos net =
     (case entries_after (m_componentIDMap net) pos of
        [] \<Rightarrow> Inr net
      | it # behind \<Rightarrow>
          (case search_from_sink it net of
             Inl e \<Rightarrow> Inl e
           | Inr net1 \<Rightarrow> sinks_loop (Some (fst it)) net1))"
  by pat_completeness auto

text \<open>
  \<^verbatim>\<open>assignEventPriorities\<close>. The last loop only writes to the log.
\<close>

definition assignEventPriorities :: "DataflowNetwork \<Rightarrow> dataflow_error + DataflowNetwork" where
  "assignEventPriorities net =
     (case clear_priorities (m_componentIDMap net) net of
        Inl e \<Rightarrow> Inl e
      | Inr net1 \<Rightarrow> sinks_loop None net1)"

subsection \<open>Vocabulary for the queue properties\<close>

text \<open>The number of queued events of a list that are addressed to receiver \<open>r\<close>.\<close>

definition count_for :: "nat \<Rightarrow> 'e QueueData list \<Rightarrow> nat" where
  "count_for r q = length (filter (\<lambda>x. pReceiverInfo x = Some r) q)"

text \<open>
  The bookkeeping invariant of the queue: every receiver's \<open>nQueuedEvents\<close> is the number
  of its events in the list. \<^verbatim>\<open>queue\<close>, \<^verbatim>\<open>clear\<close>, \<^verbatim>\<open>removeComponent\<close> and the worker
  all count one up per insertion and one down per removal.
\<close>

definition counts_ok :: "(nat \<Rightarrow> ReceiverInfo) \<Rightarrow> 'e QueueData list \<Rightarrow> bool" where
  "counts_ok rs q = (\<forall>r. nQueuedEvents (rs r) = int (count_for r q))"

definition over_cap :: "(nat \<Rightarrow> ReceiverInfo) \<Rightarrow> nat \<Rightarrow> bool" where
  "over_cap rs r = (nMaxQueueLength (rs r) > 0 \<and> nQueuedEvents (rs r) > nMaxQueueLength (rs r))"

subsection \<open>Concrete queues\<close>

definition receiver_info :: "int \<Rightarrow> int \<Rightarrow> ReceiverInfo" where
  "receiver_info cap n = \<lparr>pPort = 0, pMutex = None, nMaxQueueLength = cap, nQueuedEvents = n\<rparr>"

definition queue_data :: "nat \<Rightarrow> string \<Rightarrow> 64 word \<Rightarrow> string QueueData" where
  "queue_data r e p = \<lparr>pReceiverInfo = Some r, event = e, priority = p\<rparr>"

text \<open>An empty running queue whose receivers all queue without limit.\<close>

definition unlimited_queue :: "string EventQueue" where
  "unlimited_queue = \<lparr>m_Queue = [], m_State = state_running, receivers = (\<lambda>_. receiver_info (- 1) 0)\<rparr>"

text \<open>
  Receiver 0 has maximum queue length 1 and nothing queued; receiver 1 queues without
  limit and has one event of priority 1 waiting.
\<close>

definition waiting_other_queue :: "string EventQueue" where
  "waiting_other_queue =
     \<lparr>m_Queue = [queue_data 1 ''b'' 1], m_State = state_running,
      receivers = (\<lambda>_. receiver_info (- 1) 0)(0 := receiver_info 1 0, 1 := receiver_info (- 1) 1)\<rparr>"

text \<open>
  Receiver 0 has maximum queue length 2 and nothing queued; receiver 1 queues without
  limit and has one event of priority 9 waiting.
\<close>

definition capped_queue :: "string EventQueue" where
  "capped_queue =
     \<lparr>m_Queue = [queue_data 1 ''b'' 9], m_State = state_running,
      receivers = (\<lambda>_. receiver_info (- 1) 0)(0 := receiver_info 2 0, 1 := receiver_info (- 1) 1)\<rparr>"

subsection \<open>Vocabulary for the attribute value properties\<close>

text \<open>What a value is, read off without its caches.\<close>

definition text_form :: "'d numerics \<Rightarrow> 'd AttributeValue \<Rightarrow> string" where
  "text_form fp v = fst (getText fp v)"

definition as_number :: "'d numerics \<Rightarrow> 'd AttributeValue \<Rightarrow> 'd option" where
  "as_number fp v = (case fst (getNumber fp v) of Inr d \<Rightarrow> Some d | Inl e \<Rightarrow> None)"

text \<open>The numeric parse consumes all of a non-empty NUL-terminated string.\<close>

definition parses_fully :: "'d numerics \<Rightarrow> string \<Rightarrow> bool" where
  "parses_fully fp s = (c_str s \<noteq> [] \<and> snd (strtod fp (c_str s)) = [])"

definition initialised :: "'d AttributeValue \<Rightarrow> bool" where
  "initialised v = (m_contentState v \<noteq> stateNumber \<or> m_double v \<noteq> None)"

definition numeric_result :: "'d numerics \<Rightarrow> ComparisonType \<Rightarrow> 'd \<Rightarrow> 'd \<Rightarrow> bool" where
  "numeric_result fp m_type x y =
     (case m_type of
        equals \<Rightarrow> d_eq fp x y
      | notEquals \<Rightarrow> \<not> d_eq fp x y
      | greater \<Rightarrow> d_less fp y x
      | greaterEquals \<Rightarrow> d_le fp y x
      | less \<Rightarrow> d_less fp x y
      | lessEquals \<Rightarrow> d_le fp x y)"


text \<open>
  The outcome the comparison has on two values, told from what the values are: \<open>None\<close> is
  a raised error.
\<close>

definition comparison_outcome ::
  "'d numerics \<Rightarrow> ComparisonType \<Rightarrow> 'd AttributeValue \<Rightarrow> 'd AttributeValue \<Rightarrow> bool option" where
  "comparison_outcome fp m_type a b =
     (case (as_number fp a, as_number fp b) of
        (Some x, Some y) \<Rightarrow> Some (numeric_result fp m_type x y)
      | (Some x, None) \<Rightarrow>
          (case m_type of equals \<Rightarrow> Some False | notEquals \<Rightarrow> Some True | _ \<Rightarrow> None)
      | (None, _) \<Rightarrow>
          (case m_type of
             equals \<Rightarrow> Some (text_form fp a = text_form fp b)
           | notEquals \<Rightarrow> Some (text_form fp a \<noteq> text_form fp b)
           | _ \<Rightarrow> None))"

definition result_of :: "av_error + bool \<Rightarrow> bool option" where
  "result_of r = (case r of Inl e \<Rightarrow> None | Inr v \<Rightarrow> Some v)"

subsection \<open>A small instance of the numeric parameters\<close>

text \<open>
  Unsigned decimal integers: \<open>strtod\<close> reads the leading digits, \<open>show_double\<close> prints in
  decimal. It stands in for the C library where a statement is evaluated on concrete values.
\<close>

definition is_digit :: "char \<Rightarrow> bool" where
  "is_digit c = (c \<in> set ''0123456789'')"

definition digit_value :: "char \<Rightarrow> nat" where
  "digit_value c = of_char c - 48"

definition decimal_numerics :: "nat numerics" where
  "decimal_numerics =
     \<lparr>strtod = (\<lambda>s. (foldl (\<lambda>n c. 10 * n + digit_value c) 0 (takeWhile is_digit s), dropWhile is_digit s)),
      show_double = show_decimal,
      d_eq = (=), d_less = (<), d_le = (\<le>)\<rparr>"

subsection \<open>Vocabulary for the graph properties\<close>

text \<open>Every pointer held by the edge map was handed out by \<^verbatim>\<open>new\<close>.\<close>

definition edges_allocated :: "('na, 'ea, 'z) Graph_scheme \<Rightarrow> bool" where
  "edges_allocated g = list_all (\<lambda>(k, p). p < next_object g) (m_Edges g)"

definition out_edges_of :: "('na, 'ea, 'z) Graph_scheme \<Rightarrow> nat \<Rightarrow> nat list" where
  "out_edges_of g node = (case node_objects g node of None \<Rightarrow> [] | Some n \<Rightarrow> m_OutEdges n)"

definition in_edges_of :: "('na, 'ea, 'z) Graph_scheme \<Rightarrow> nat \<Rightarrow> nat list" where
  "in_edges_of g node = (case node_objects g node of None \<Rightarrow> [] | Some n \<Rightarrow> m_InEdges n)"

subsection \<open>A concrete graph\<close>

text \<open>Nodes \<open>A\<close> and \<open>B\<close> (objects 0 and 1) and the edge \<open>e\<close> from \<open>A\<close> to \<open>B\<close> (object 2).\<close>

definition one_edge_graph :: "(unit, unit) Graph" where
  "one_edge_graph =
     \<lparr>node_objects = (\<lambda>_. None)
        (0 \<mapsto> \<lparr>node_attributes = (), node_Name = ''A'', m_InEdges = [], m_OutEdges = [2]\<rparr>,
         1 \<mapsto> \<lparr>node_attributes = (), node_Name = ''B'', m_InEdges = [2], m_OutEdges = []\<rparr>),
      edge_objects = (\<lambda>_. None)
        (2 \<mapsto> \<lparr>edge_attributes = (), edge_Name = ''e'', m_Source = Some 0, m_Target = Some 1\<rparr>),
      next_object = 3,
      m_Nodes = [(''A'', 0), (''B'', 1)],
      m_Edges = [(''e'', 2)]\<rparr>"

section \<open>Vocabulary for the SRG manager and the matcher\<close>

text \<open>The SRG edges that the pattern's input edges are matched to, in the order of the edge map.\<close>

definition input_matches :: "'d UTQLSubgraph \<Rightarrow> (nat, nat) std_map \<Rightarrow> (string \<times> nat) list \<Rightarrow> nat list" where
  "input_matches pGraph fwd es =
     concat (map (\<lambda>it. case edge_objects pGraph (snd it) of
                          None \<Rightarrow> []
                        | Some e \<Rightarrow>
                            (if isInput (edge_attributes e)
                             then (case map_find fwd (snd it) of None \<Rightarrow> [] | Some f \<Rightarrow> [f])
                             else [])) es)"

definition matched_input_edges :: "'d Pattern \<Rightarrow> 'd EdgeMatching \<Rightarrow> nat list" where
  "matched_input_edges pattern matching =
     input_matches (m_Graph pattern) (m_edgeForwardMap matching) (m_Edges (m_Graph pattern))"

definition output_edges_in :: "'d UTQLSubgraph \<Rightarrow> (string \<times> nat) list \<Rightarrow> (string \<times> nat) list" where
  "output_edges_in pGraph es =
     filter (\<lambda>it. case edge_objects pGraph (snd it) of
                     None \<Rightarrow> False
                   | Some e \<Rightarrow> isOutput (edge_attributes e)) es"

definition has_sources :: "'d SRGraph \<Rightarrow> nat \<Rightarrow> string std_set \<Rightarrow> bool" where
  "has_sources srg a S =
     (case edge_objects srg a of None \<Rightarrow> False | Some e \<Rightarrow> m_InformationSources (edge_attributes e) = S)"


subsection \<open>Concrete patterns and graphs\<close>

definition no_functions :: "'d function_semantics" where
  "no_functions ft children c = Inl (GraphError (Exception ''Unknown function''))"

definition accept_all :: "'d stage2" where
  "accept_all pattern matching mgr = Inr (True, [])"

definition pattern_node :: "string \<Rightarrow> nat list \<Rightarrow> nat list \<Rightarrow> nat UTQLNode GraphNode" where
  "pattern_node name ins outs =
     \<lparr>node_attributes = UTQLNode_new Input, node_Name = name, m_InEdges = ins, m_OutEdges = outs\<rparr>"

definition pattern_edge :: "string \<Rightarrow> Tag \<Rightarrow> nat \<Rightarrow> nat \<Rightarrow> nat UTQLEdge GraphEdge" where
  "pattern_edge name tag source target =
     \<lparr>edge_attributes = UTQLEdge_new tag, edge_Name = name,
      m_Source = Some source, m_Target = Some target\<rparr>"

definition concat_graph :: "nat UTQLSubgraph" where
  "concat_graph = UTQLSubgraph_new
     \<lparr>node_objects := (\<lambda>_. None)
        (0 \<mapsto> pattern_node ''X'' [] [3, 5],
         1 \<mapsto> pattern_node ''Y'' [3] [4],
         2 \<mapsto> pattern_node ''Z'' [4, 5] []),
      edge_objects := (\<lambda>_. None)
        (3 \<mapsto> pattern_edge ''e1'' Input 0 1,
         4 \<mapsto> pattern_edge ''e2'' Input 1 2,
         5 \<mapsto> pattern_edge ''e3'' Output 0 2),
      next_object := 6,
      m_Nodes := [(''X'', 0), (''Y'', 1), (''Z'', 2)],
      m_Edges := [(''e1'', 3), (''e2'', 4), (''e3'', 5)],
      m_Name := ''concat''\<rparr>"

definition concat_pattern :: "nat Pattern" where
  "concat_pattern =
     \<lparr>pattern_Name = ''concat'', m_clientId = ''client'', m_Graph = concat_graph,
      m_searchPlan = [SearchPlanElement_edge 3, SearchPlanElement_edge 4]\<rparr>"

definition srg_node :: "string \<Rightarrow> nat list \<Rightarrow> nat list \<Rightarrow> nat SRGNodeAttributes GraphNode" where
  "srg_node name ins outs =
     \<lparr>node_attributes = \<lparr>m_Values = [], m_InformationSources = [], m_SubgraphIDs = [''base''],
                          m_NodeRefs = []\<rparr>,
      node_Name = name, m_InEdges = ins, m_OutEdges = outs\<rparr>"

definition srg_edge ::
  "string \<Rightarrow> string \<Rightarrow> string \<Rightarrow> string list \<Rightarrow> nat \<Rightarrow> nat \<Rightarrow> nat SRGEdgeAttributes GraphEdge" where
  "srg_edge subgraphID localName patternName sources source target =
     \<lparr>edge_attributes = \<lparr>m_Values = [], m_InformationSources = sources, m_SubgraphID = subgraphID,
                          m_PatternName = patternName, m_LocalName = localName,
                          m_DependantSubgraphIDs = []\<rparr>,
      edge_Name = subgraphID @ '':'' @ localName, m_Source = Some source, m_Target = Some target\<rparr>"

definition manager_of :: "nat SRGraph \<Rightarrow> nat UTQLSRGManager" where
  "manager_of srg =
     \<lparr>m_GlobalSrg = srg, m_GraphRepository = [], m_Patterns = [], m_ActiveQueries = [],
      m_knownAttributes = [], patternApplicationID = 2000\<rparr>"

definition matching_of :: "(nat \<times> nat) list \<Rightarrow> (nat \<times> nat \<times> int) list \<Rightarrow> (nat \<times> nat \<times> int) list \<Rightarrow> nat EdgeMatching" where
  "matching_of edges forward backward =
     EdgeMatching_new
       \<lparr>m_edgeForwardMap := edges,
        m_edgeBackwardMap := map (\<lambda>(e, f). (f, e)) edges,
        m_vertexForwardMap := map (\<lambda>(u, v, n). (u, \<lparr>m_correspondence = Some v, m_associationCount = n\<rparr>)) forward,
        m_vertexBackwardMap := map (\<lambda>(u, v, n). (u, \<lparr>m_correspondence = Some v, m_associationCount = n\<rparr>)) backward,
        m_iSearchPlanStep := 2\<rparr>"

definition chain_srg :: "nat SRGraph" where
  "chain_srg =
     \<lparr>node_objects = (\<lambda>_. None)
        (0 \<mapsto> srg_node ''A'' [] [3], 1 \<mapsto> srg_node ''B'' [3] [4], 2 \<mapsto> srg_node ''C'' [4] []),
      edge_objects = (\<lambda>_. None)
        (3 \<mapsto> srg_edge ''base'' ''ab'' [] [''s1''] 0 1,
         4 \<mapsto> srg_edge ''base'' ''bc'' [] [''s2''] 1 2),
      next_object = 5,
      m_Nodes = [(''A'', 0), (''B'', 1), (''C'', 2)],
      m_Edges = [(''base:ab'', 3), (''base:bc'', 4)],
      m_NodeIDMap = []\<rparr>"

definition chain_matching :: "nat EdgeMatching" where
  "chain_matching = matching_of [(3, 3), (4, 4)] [(0, 0, 1), (1, 1, 2), (2, 2, 1)] [(0, 0, 1), (1, 1, 2), (2, 2, 1)]"

definition inverse_srg :: "nat SRGraph" where
  "inverse_srg =
     \<lparr>node_objects = (\<lambda>_. None)
        (0 \<mapsto> srg_node ''A'' [3] [2], 1 \<mapsto> srg_node ''B'' [2] [3]),
      edge_objects = (\<lambda>_. None)
        (2 \<mapsto> srg_edge ''base'' ''ab'' [] [''base:ab''] 0 1,
         3 \<mapsto> srg_edge ''inv2000'' ''ba'' ''inv'' [''base:ab''] 1 0),
      next_object = 4,
      m_Nodes = [(''A'', 0), (''B'', 1)],
      m_Edges = [(''base:ab'', 2), (''inv2000:ba'', 3)],
      m_NodeIDMap = []\<rparr>"

definition inverse_matching :: "nat EdgeMatching" where
  "inverse_matching = matching_of [(3, 2), (4, 3)] [(0, 0, 1), (1, 1, 2), (2, 0, 1)] [(0, 2, 2), (1, 1, 2)]"


text \<open>
  A pattern of one input node \<open>N\<close> whose predicate is \<open>id=='A'&&type=='x'\<close>, with the search
  plan that the constructor of \<^verbatim>\<open>Pattern\<close> builds for it, and an SRG whose node \<open>A\<close> has
  type \<open>y\<close>.
\<close>

definition typed_id_pattern_graph :: "nat UTQLSubgraph" where
  "typed_id_pattern_graph = UTQLSubgraph_new
     \<lparr>node_objects := (\<lambda>_. None)
        (0 \<mapsto> \<lparr>node_attributes = (UTQLNode_new Input)
                   \<lparr>m_predicateList :=
                      [PredicateAnd
                         (PredicateCompare equals (AttributeExpressionAttribute [] ''id'')
                            (AttributeExpressionConstant_new decimal_numerics ''A''))
                         (PredicateCompare equals (AttributeExpressionAttribute [] ''type'')
                            (AttributeExpressionConstant_new decimal_numerics ''x''))]\<rparr>,
                node_Name = ''N'', m_InEdges = [], m_OutEdges = []\<rparr>),
      next_object := 1, m_Nodes := [(''N'', 0)], m_Name := ''typedNode''\<rparr>"

definition typed_id_pattern :: "nat Pattern" where
  "typed_id_pattern =
     \<lparr>pattern_Name = ''typedNode'', m_clientId = ''client'', m_Graph = typed_id_pattern_graph,
      m_searchPlan = [SearchPlanElement_node 0 ''A'']\<rparr>"

definition node_A_srg :: "nat SRGraph" where
  "node_A_srg =
     \<lparr>node_objects = (\<lambda>_. None)
        (0 \<mapsto> \<lparr>node_attributes =
                   \<lparr>m_Values = [(''id'', AttributeValue_string ''A''),
                                (''type'', AttributeValue_string ''y'')],
                    m_InformationSources = [], m_SubgraphIDs = [''base''], m_NodeRefs = []\<rparr>,
                node_Name = ''A'', m_InEdges = [], m_OutEdges = []\<rparr>),
      edge_objects = (\<lambda>_. None), next_object = 1, m_Nodes = [(''A'', 0)], m_Edges = [],
      m_NodeIDMap = [(''A'', 0)]\<rparr>"
section \<open>Vocabulary for the dataflow network\<close>

text \<open>
  The component registered under a name (null when there is none), the connections that
  the maps hold for a name, and the relation "\<open>u\<close> is the source of an incoming connection
  of \<open>v\<close>", which is what the search follows.
\<close>

definition registered :: "DataflowNetwork \<Rightarrow> string \<Rightarrow> nat option" where
  "registered net k = (case map_find (m_componentIDMap net) k of None \<Rightarrow> None | Some p \<Rightarrow> p)"

definition incoming :: "DataflowNetwork \<Rightarrow> string \<Rightarrow> DataflowNetworkConnection list" where
  "incoming net v = (case map_find (m_inConnectionMap net) v of None \<Rightarrow> [] | Some cs \<Rightarrow> cs)"

definition outgoing :: "DataflowNetwork \<Rightarrow> string \<Rightarrow> DataflowNetworkConnection list" where
  "outgoing net v = (case map_find (m_outConnectionMap net) v of None \<Rightarrow> [] | Some cs \<Rightarrow> cs)"

definition connected :: "DataflowNetwork \<Rightarrow> string \<Rightarrow> string \<Rightarrow> bool" where
  "connected net u v = (u \<in> set (map (\<lambda>c. m_componentName (m_source c)) (incoming net v)))"

definition is_sink :: "DataflowNetwork \<Rightarrow> string \<Rightarrow> bool" where
  "is_sink net k = (registered net k \<noteq> None \<and> outgoing net k = [])"

definition priority_of :: "DataflowNetwork \<Rightarrow> string \<Rightarrow> int option" where
  "priority_of net k = map_option (getEventPriority net) (registered net k)"

text \<open>
  A network as \<^verbatim>\<open>createComponent\<close> and \<^verbatim>\<open>connectComponents\<close> build it: the keys of
  \<open>m_componentIDMap\<close> are in order and every key holds a component of this name; the
  connections come from registered components.
\<close>

definition components_registered :: "DataflowNetwork \<Rightarrow> bool" where
  "components_registered net =
     (sorted_wrt (<) (map fst (m_componentIDMap net)) \<and>
      list_all (\<lambda>it. case snd it of
                        None \<Rightarrow> False
                      | Some c \<Rightarrow> component_name (components net c) = fst it)
        (m_componentIDMap net))"

definition sources_registered :: "DataflowNetwork \<Rightarrow> bool" where
  "sources_registered net =
     list_all (\<lambda>it. list_all (\<lambda>c. registered net (m_componentName (m_source c)) \<noteq> None) (snd it))
       (m_inConnectionMap net)"

text \<open>
  A numbering of the components that grows against every connection and stays within
  \<open>bound\<close>: there is one exactly when the network has no cycle and no path of more than
  \<open>bound\<close> connections.
\<close>

definition levels :: "(string \<Rightarrow> nat) \<Rightarrow> nat \<Rightarrow> DataflowNetwork \<Rightarrow> bool" where
  "levels depth bound net =
     (list_all (\<lambda>it. list_all (\<lambda>c. depth (fst it) < depth (m_componentName (m_source c))) (snd it))
        (m_inConnectionMap net) \<and>
      list_all (\<lambda>it. depth (fst it) \<le> bound) (m_componentIDMap net))"

text \<open>Every component passes its events on to some sink.\<close>

definition reaches_sink :: "DataflowNetwork \<Rightarrow> bool" where
  "reaches_sink net =
     (\<forall>it\<in>set (m_componentIDMap net). \<exists>s. is_sink net s \<and> (connected net)\<^sup>*\<^sup>* (fst it) s)"

subsection \<open>The invariant of the search\<close>

definition nm :: "DataflowNetwork \<Rightarrow> nat \<Rightarrow> string" where
  "nm net c = component_name (components net c)"

definition entry_name :: "DataflowNetwork \<Rightarrow> AEPSearchInfo \<Rightarrow> string" where
  "entry_name net e = (case pComponent e of None \<Rightarrow> [] | Some c \<Rightarrow> nm net c)"

definition prio :: "DataflowNetwork \<Rightarrow> string \<Rightarrow> int" where
  "prio net k = (case registered net k of None \<Rightarrow> 255 | Some c \<Rightarrow> getEventPriority net c)"

text \<open>What the search relies on, in terms of lookups.\<close>

definition wf_net :: "(string \<Rightarrow> nat) \<Rightarrow> DataflowNetwork \<Rightarrow> bool" where
  "wf_net depth net =
     ((\<forall>k c. registered net k = Some c \<longrightarrow> nm net c = k) \<and>
      (\<forall>u v. connected net u v \<longrightarrow> registered net u \<noteq> None \<and> depth v < depth u) \<and>
      (\<forall>k. registered net k \<noteq> None \<longrightarrow> depth k \<le> 255))"

definition same_net :: "DataflowNetwork \<Rightarrow> DataflowNetwork \<Rightarrow> bool" where
  "same_net net net' =
     (m_componentIDMap net' = m_componentIDMap net \<and>
      (\<forall>c. nm net' c = nm net c) \<and>
      (\<forall>v. incoming net' v = incoming net v) \<and>
      (\<forall>v. outgoing net' v = outgoing net v))"

text \<open>
  Entries of negative priority are markers. A marker deeper in the vector belongs to a
  component further downstream.
\<close>

fun ordered :: "(string \<Rightarrow> nat) \<Rightarrow> DataflowNetwork \<Rightarrow> AEPSearchInfo list \<Rightarrow> bool" where
  "ordered depth net [] = True"
| "ordered depth net (e # rest) =
     ((\<forall>e'\<in>set rest. search_priority e' < 0 \<longrightarrow> depth (entry_name net e') < depth (entry_name net e)) \<and>
      ordered depth net rest)"

definition entries_ok :: "(string \<Rightarrow> nat) \<Rightarrow> DataflowNetwork \<Rightarrow> AEPSearchInfo list \<Rightarrow> bool" where
  "entries_ok depth net search =
     (\<forall>e\<in>set search.
        (\<exists>c. pComponent e = Some c \<and> registered net (nm net c) = Some c) \<and>
        search_priority e \<le> 255 \<and>
        (search_priority e < 0 \<or> 255 - int (depth (entry_name net e)) \<le> search_priority e))"

definition visiting_ok :: "AEPSearchInfo list \<Rightarrow> nat option std_set \<Rightarrow> bool" where
  "visiting_ok search visiting =
     (set visiting = pComponent ` {e \<in> set search. search_priority e < 0})"

text \<open>
  Every connection \<open>u \<rightarrow> v\<close> is in order, or \<open>u\<close> waits in the vector with a priority below
  that of \<open>v\<close>, or \<open>v\<close> has not been visited yet; \<open>R\<close> holds the names visited so far.
\<close>

definition edges_ok :: "DataflowNetwork \<Rightarrow> AEPSearchInfo list \<Rightarrow> string set \<Rightarrow> bool" where
  "edges_ok net search R =
     (\<forall>u v. connected net u v \<and> registered net v \<noteq> None \<longrightarrow>
        prio net u < prio net v \<or>
        (\<exists>e\<in>set search. pComponent e = registered net u \<and> 0 \<le> search_priority e \<and>
                         search_priority e < prio net v) \<or>
        (prio net v = 255 \<and> v \<notin> R))"

definition search_inv ::
  "(string \<Rightarrow> nat) \<Rightarrow> DataflowNetwork \<Rightarrow> AEPSearchInfo list \<Rightarrow> nat option std_set \<Rightarrow> string set \<Rightarrow> bool" where
  "search_inv depth net search visiting R =
     (entries_ok depth net search \<and> ordered depth net search \<and> visiting_ok search visiting \<and>
      edges_ok net search R \<and> (\<forall>k. prio net k \<le> 255))"

definition pending_names :: "DataflowNetwork \<Rightarrow> AEPSearchInfo list \<Rightarrow> string set" where
  "pending_names net search = entry_name net ` {e \<in> set search. 0 \<le> search_priority e}"

subsection \<open>Concrete networks\<close>

definition connection :: "string \<Rightarrow> string \<Rightarrow> DataflowNetworkConnection" where
  "connection u v =
     \<lparr>m_source = \<lparr>m_componentName = u, m_portName = ''Output''\<rparr>,
      m_destination = \<lparr>m_componentName = v, m_portName = ''Input''\<rparr>\<rparr>"

definition new_component :: "string \<Rightarrow> Component" where
  "new_component name = \<lparr>component_name = name, m_eventPriority = 0\<rparr>"

text \<open>Three components \<open>a\<close>, \<open>b\<close> and \<open>c\<close> with the connections \<open>a \<rightarrow> b\<close>, \<open>b \<rightarrow> c\<close> and \<open>a \<rightarrow> c\<close>.\<close>

definition triangle_network :: DataflowNetwork where
  "triangle_network =
     \<lparr>components = (\<lambda>c. new_component (if c = 0 then ''a'' else if c = 1 then ''b'' else ''c'')),
      m_componentIDMap = [(''a'', Some 0), (''b'', Some 1), (''c'', Some 2)],
      m_inConnectionMap =
        [(''b'', [connection ''a'' ''b'']), (''c'', [connection ''a'' ''c'', connection ''b'' ''c''])],
      m_outConnectionMap =
        [(''a'', [connection ''a'' ''b'', connection ''a'' ''c'']), (''b'', [connection ''b'' ''c''])]\<rparr>"

definition triangle_depth :: "string \<Rightarrow> nat" where
  "triangle_depth k = (if k = ''a'' then 2 else if k = ''b'' then 1 else 0)"

text \<open>
  A component that is registered under the two names \<open>k1\<close> and \<open>k2\<close> and calls itself \<open>k1\<close>,
  as \<^verbatim>\<open>createComponent\<close> registers it when the factory returns a component that exists,
  and a connection from \<open>u\<close> to \<open>k2\<close>.
\<close>

definition alias_network :: DataflowNetwork where
  "alias_network =
     \<lparr>components = (\<lambda>c. new_component (if c = 0 then ''k1'' else ''u'')),
      m_componentIDMap = [(''k1'', Some 0), (''k2'', Some 0), (''u'', Some 1)],
      m_inConnectionMap = [(''k2'', [connection ''u'' ''k2''])],
      m_outConnectionMap = [(''u'', [connection ''u'' ''k2''])]\<rparr>"

text \<open>
  A chain of \<open>n + 1\<close> components with \<open>n\<close> connections: component \<open>i\<close> sends to component
  \<open>i + 1\<close>, and the last one is the sink. The name of component \<open>i\<close> is \<open>i + 1\<close> times the
  letter \<open>c\<close>, so that the names are in the order of the map.
\<close>

definition chain_name :: "nat \<Rightarrow> string" where
  "chain_name i = replicate (Suc i) CHR ''c''"

definition chain_network :: "nat \<Rightarrow> DataflowNetwork" where
  "chain_network n =
     \<lparr>components = (\<lambda>c. new_component (chain_name c)),
      m_componentIDMap = map (\<lambda>i. (chain_name i, Some i)) [0..<Suc n],
      m_inConnectionMap =
        map (\<lambda>i. (chain_name (Suc i), [connection (chain_name i) (chain_name (Suc i))])) [0..<n],
      m_outConnectionMap =
        map (\<lambda>i. (chain_name i, [connection (chain_name i) (chain_name (Suc i))])) [0..<n]\<rparr>"

definition chain_depth :: "nat \<Rightarrow> string \<Rightarrow> nat" where
  "chain_depth n k = Suc n - length k"

text \<open>What the search sees of a chain.\<close>

definition is_chain :: "nat \<Rightarrow> DataflowNetwork \<Rightarrow> bool" where
  "is_chain n net =
     ((\<forall>k c. (registered net k = Some c) = (c \<le> n \<and> k = chain_name c)) \<and>
      (\<forall>c. nm net c = chain_name c) \<and>
      incoming net (chain_name 0) = [] \<and>
      (\<forall>j<n. incoming net (chain_name (Suc j)) = [connection (chain_name j) (chain_name (Suc j))]) \<and>
      (\<forall>j<n. outgoing net (chain_name j) \<noteq> []) \<and>
      outgoing net (chain_name n) = [])"

text \<open>The position of the iterator that has passed the first \<open>i\<close> components of a chain.\<close>

definition chain_pos :: "nat \<Rightarrow> string option" where
  "chain_pos i = (case i of 0 \<Rightarrow> None | Suc j \<Rightarrow> Some (chain_name j))"

section \<open>Properties of the event queue\<close>

lemma int32_id: "- 2147483648 \<le> x \<Longrightarrow> x < 2147483648 \<Longrightarrow> int32 x = x"
  by (simp add: int32_def)

lemma count_for_Cons:
  "count_for r (x # q) = (if pReceiverInfo x = Some r then Suc (count_for r q) else count_for r q)"
  by (simp add: count_for_def)

lemma count_for_append: "count_for r (p @ q) = count_for r p + count_for r q"
  by (simp add: count_for_def)

lemma count_for_Nil: "count_for r [] = 0"
  by (simp add: count_for_def)

lemma count_for_le: "count_for r q \<le> length q"
  by (simp add: count_for_def)

text \<open>
  The slow path never runs off the end of the list when some queued event does not sort
  before the new one; \<^verbatim>\<open>queue\<close> takes it only when the last event is such an event.
\<close>

lemma insert_near_front_ok:
  "\<exists>y\<in>set q. \<not> priority y < priority x \<Longrightarrow>
   \<exists>zs. insert_near_front x q = Inr zs \<and> length zs = Suc (length q) \<and>
        (\<forall>r. count_for r zs = count_for r (x # q))"
proof (induction q)
  case Nil
  then show ?case by simp
next
  case (Cons y ys)
  show ?case
  proof (cases "priority y < priority x")
    case True
    with Cons.prems have "\<exists>y\<in>set ys. \<not> priority y < priority x" by auto
    from Cons.IH [OF this] obtain zs where
      zs: "insert_near_front x ys = Inr zs" "length zs = Suc (length ys)"
          "\<forall>r. count_for r zs = count_for r (x # ys)" by blast
    with True show ?thesis by (simp add: count_for_Cons)
  next
    case False
    then show ?thesis by simp
  qed
qed

lemma sort_into_queue_ok:
  "\<exists>zs. sort_into_queue x q = Inr zs \<and> length zs = Suc (length q) \<and>
        (\<forall>r. count_for r zs = count_for r (x # q))"
proof (cases "q = [] \<or> priority (last q) \<le> priority x")
  case True
  then show ?thesis
    by (auto simp: sort_into_queue_def count_for_append count_for_Cons count_for_Nil)
next
  case False
  then have "last q \<in> set q" "\<not> priority (last q) < priority x" by auto
  then have "\<exists>y\<in>set q. \<not> priority y < priority x" by blast
  from insert_near_front_ok [OF this] False show ?thesis
    by (simp add: sort_into_queue_def)
qed

lemma counts_ok_inc:
  assumes "counts_ok rs q" "length q < 2147483647" "\<forall>r. count_for r zs = count_for r (x # q)"
  shows "counts_ok (inc_queued (pReceiverInfo x) rs) zs"
proof -
  have b: "int (count_for r q) + 1 < 2147483648" for r
    using count_for_le [of r q] assms(2) by linarith
  show ?thesis
    using assms(1,3) b
    by (auto simp: counts_ok_def inc_queued_def count_for_Cons int32_id split: option.splits)
qed

lemma counts_ok_dec:
  assumes "counts_ok rs (x # xs)" "length (x # xs) < 2147483648"
  shows "counts_ok (dec_queued (pReceiverInfo x) rs) xs"
proof -
  have b: "int (count_for r xs) < 2147483648" for r
    using count_for_le [of r xs] assms(2) by simp
  show ?thesis
    using assms(1) b
    by (auto simp: counts_ok_def dec_queued_def count_for_Cons int32_id split: option.splits)
qed

lemma inc_queued_max: "nMaxQueueLength (inc_queued p rs r) = nMaxQueueLength (rs r)"
  by (simp add: inc_queued_def split: option.splits)

lemma dec_queued_max: "nMaxQueueLength (dec_queued p rs r) = nMaxQueueLength (rs r)"
  by (simp add: dec_queued_def split: option.splits)

text \<open>The insertion loop keeps the bookkeeping invariant and never fails.\<close>

lemma enqueue_all_ok:
  "counts_ok (receivers s) (m_Queue s) \<Longrightarrow> length (m_Queue s) + length events < 2147483648 \<Longrightarrow>
   \<exists>s1. enqueue_all events s = Inr s1 \<and> counts_ok (receivers s1) (m_Queue s1) \<and>
        length (m_Queue s1) = length (m_Queue s) + length events \<and>
        (\<forall>r. count_for r (m_Queue s1) = count_for r (m_Queue s) + count_for r events) \<and>
        (\<forall>r. nMaxQueueLength (receivers s1 r) = nMaxQueueLength (receivers s r))"
proof (induction events arbitrary: s)
  case Nil
  then show ?case by (simp add: count_for_Nil)
next
  case (Cons x xs)
  obtain zs where zs: "sort_into_queue x (m_Queue s) = Inr zs" "length zs = Suc (length (m_Queue s))"
      "\<forall>r. count_for r zs = count_for r (x # m_Queue s)"
    using sort_into_queue_ok by blast
  let ?s = "s\<lparr>m_Queue := zs, receivers := inc_queued (pReceiverInfo x) (receivers s)\<rparr>"
  have c: "counts_ok (receivers ?s) (m_Queue ?s)"
    using counts_ok_inc [OF Cons.prems(1) _ zs(3)] Cons.prems(2) by simp
  have l: "length (m_Queue ?s) + length xs < 2147483648"
    using Cons.prems(2) zs(2) by simp
  from Cons.IH [OF c l] obtain s1 where s1: "enqueue_all xs ?s = Inr s1"
      "counts_ok (receivers s1) (m_Queue s1)"
      "length (m_Queue s1) = length (m_Queue ?s) + length xs"
      "\<forall>r. count_for r (m_Queue s1) = count_for r (m_Queue ?s) + count_for r xs"
      "\<forall>r. nMaxQueueLength (receivers s1 r) = nMaxQueueLength (receivers ?s r)"
    by blast
  show ?case
    using zs s1 by (simp add: count_for_Cons inc_queued_max)
qed

text \<open>
  Under the bookkeeping invariant the dropping loop stops on a non-empty queue: a receiver
  over its (positive) maximum has at least two events queued. It drops nothing of a
  receiver that is not over its maximum.
\<close>

lemma drop_front_ok:
  "counts_ok rs q \<Longrightarrow> q \<noteq> [] \<Longrightarrow> length q < 2147483648 \<Longrightarrow>
   \<exists>rs' q' d. drop_front rs q = Inr (rs', q', d) \<and> q = d @ q' \<and> q' \<noteq> [] \<and> counts_ok rs' q' \<and>
      (\<forall>r. nMaxQueueLength (rs' r) = nMaxQueueLength (rs r)) \<and>
      (\<forall>r. \<not> over_cap rs r \<longrightarrow> count_for r d = 0)"
proof (induction q arbitrary: rs)
  case Nil
  then show ?case by simp
next
  case (Cons x xs)
  show ?case
  proof (cases "too_long rs x")
    case False
    then show ?thesis using Cons.prems by (simp add: count_for_Nil)
  next
    case True
    then obtain r0 where r0: "pReceiverInfo x = Some r0" "over_cap rs r0"
      by (auto simp: too_long_def over_cap_def split: option.splits)
    have c0: "nQueuedEvents (rs r0) = int (count_for r0 (x # xs))"
      using Cons.prems(1) by (simp add: counts_ok_def)
    with r0 have two: "2 \<le> count_for r0 (x # xs)" by (simp add: over_cap_def)
    with r0 have "1 \<le> count_for r0 xs" by (simp add: count_for_Cons)
    then have ne: "xs \<noteq> []" by (auto simp: count_for_Nil)
    let ?rs = "dec_queued (pReceiverInfo x) rs"
    have ck: "counts_ok ?rs xs"
      using counts_ok_dec [OF Cons.prems(1)] Cons.prems(3) by simp
    have ln: "length xs < 2147483648" using Cons.prems(3) by simp
    from Cons.IH [OF ck ne ln] obtain rs' q' d where
      res: "drop_front ?rs xs = Inr (rs', q', d)" "xs = d @ q'" "q' \<noteq> []" "counts_ok rs' q'"
        "\<forall>r. nMaxQueueLength (rs' r) = nMaxQueueLength (?rs r)"
        "\<forall>r. \<not> over_cap ?rs r \<longrightarrow> count_for r d = 0"
      by blast
    have keep: "\<not> over_cap rs r \<Longrightarrow> count_for r (x # d) = 0" for r
    proof -
      assume n: "\<not> over_cap rs r"
      with r0 have ne: "r \<noteq> r0" by auto
      then have "?rs r = rs r" using r0 by (simp add: dec_queued_def)
      with n have "\<not> over_cap ?rs r" by (simp add: over_cap_def)
      with res(6) have "count_for r d = 0" by blast
      with ne r0 show ?thesis by (simp add: count_for_Cons)
    qed
    show ?thesis
      using True res keep by (simp add: dec_queued_max)
  qed
qed

text \<open>
  Claim C1. Two events enqueued for the same receiver with the same priority are
  dispatched in the order in which they were enqueued, whatever else is queued. The code
  does not do this on the slow path of the insertion: with an event of a higher priority
  behind it, the later event \<open>e2\<close> is put before the earlier \<open>e1\<close>, and the worker
  dispatches \<open>e2\<close> first. Here \<open>e1\<close> (priority 5) and \<open>x\<close> (priority 10) are enqueued in
  one batch and \<open>e2\<close> (priority 5) in the next, all for receiver 0.
\<close>

theorem equal_priority_dispatch_reversed:
  "(case queue [queue_data 0 ''e1'' 5, queue_data 0 ''x'' 10] unlimited_queue of
      Inl e \<Rightarrow> None
    | Inr (s, d) \<Rightarrow>
        (case queue [queue_data 0 ''e2'' 5] s of
           Inl e \<Rightarrow> None
         | Inr (s', d') \<Rightarrow> Some (fst (thread_rounds 3 s'))))
   = Some [Dispatch (Some 0) ''e2'', Dispatch (Some 0) ''e1'', Dispatch (Some 0) ''x'']"
  by (simp add: queue_def sort_into_queue_def inc_queued_def dec_queued_def too_long_def
      thread_round_def unlimited_queue_def queue_data_def receiver_info_def int32_def
      numeral_3_eq_3)

text \<open>
  Claim C2, as stated: a receiver with maximum queue length \<open>K \<ge> 0\<close> and no pending events
  gets \<open>K + 1\<close> events in one batch; then exactly one of them is dropped and its count is
  \<open>K\<close> afterwards. This fails: the loop only ever looks at the front of the queue. With
  \<open>K = 1\<close> and an event of another receiver in front, both new events stay queued.
\<close>

theorem queue_cap_front_other_receiver_counterexample:
  "nMaxQueueLength (receivers waiting_other_queue 0) = 1 \<and>
   nQueuedEvents (receivers waiting_other_queue 0) = 0 \<and>
   count_for 0 (m_Queue waiting_other_queue) = 0 \<and>
   count_for 0 [queue_data 0 ''a1'' 5, queue_data 0 ''a2'' 5] = 2 \<and>
   (case queue [queue_data 0 ''a1'' 5, queue_data 0 ''a2'' 5] waiting_other_queue of
      Inl e \<Rightarrow> False
    | Inr (s', dropped) \<Rightarrow>
        dropped = [] \<and> nQueuedEvents (receivers s' 0) = 2 \<and>
        map event (m_Queue s') = [''b'', ''a1'', ''a2''])"
  by (simp add: queue_def sort_into_queue_def inc_queued_def dec_queued_def too_long_def
      waiting_other_queue_def queue_data_def receiver_info_def int32_def count_for_def)

text \<open>
  Claim C2, amended: the maximum is at least 1, and after the insertion the front event of
  the queue is one of the receiver's. The queue holds fewer than \<open>2^31\<close> events, so that the
  \<^verbatim>\<open>int\<close> counters do not overflow, and the counters agree with the queue. Then \<^verbatim>\<open>queue\<close>
  returns, exactly one event of the receiver is among the dropped ones, and the
  receiver's count afterwards is \<open>K\<close>, the number of its events still queued.
\<close>

theorem queue_cap_drops_one:
  assumes inv: "counts_ok (receivers s) (m_Queue s)"
    and len: "length (m_Queue s) + length events < 2147483648"
    and cap: "nMaxQueueLength (receivers s r) = K" "1 \<le> K"
    and none: "count_for r (m_Queue s) = 0"
    and batch: "int (count_for r events) = K + 1"
    and ins: "enqueue_all events s = Inr s1"
    and head: "pReceiverInfo (hd (m_Queue s1)) = Some r"
  shows "\<exists>s' dropped. queue events s = Inr (s', dropped) \<and> count_for r dropped = 1 \<and>
           nQueuedEvents (receivers s' r) = K \<and> int (count_for r (m_Queue s')) = K"
proof -
  from enqueue_all_ok [OF inv len] ins have
    s1: "counts_ok (receivers s1) (m_Queue s1)"
        "length (m_Queue s1) = length (m_Queue s) + length events"
        "\<forall>r. count_for r (m_Queue s1) = count_for r (m_Queue s) + count_for r events"
        "\<forall>r. nMaxQueueLength (receivers s1 r) = nMaxQueueLength (receivers s r)"
    by auto
  from s1(3) none batch have cnt: "int (count_for r (m_Queue s1)) = K + 1" by simp
  with cap(2) have "m_Queue s1 \<noteq> []" by (auto simp: count_for_Nil)
  then obtain x xs where q1: "m_Queue s1 = x # xs" by (cases "m_Queue s1") auto
  with head have xr: "pReceiverInfo x = Some r" by simp
  have nq: "nQueuedEvents (receivers s1 r) = K + 1"
    using s1(1) cnt by (simp add: counts_ok_def)
  have mx: "nMaxQueueLength (receivers s1 r) = K" using s1(4) cap(1) by simp
  have tl: "too_long (receivers s1) x"
    using xr nq mx cap(2) by (simp add: too_long_def)
  let ?rs = "dec_queued (pReceiverInfo x) (receivers s1)"
  have l1: "length (x # xs) < 2147483648" using s1(2) len q1 by simp
  have cx: "int (count_for r xs) = K" using cnt q1 xr by (simp add: count_for_Cons)
  have ck: "counts_ok ?rs xs"
    using counts_ok_dec [of "receivers s1" x xs] s1(1) q1 l1 by simp
  have ne: "xs \<noteq> []" using cx cap(2) by (auto simp: count_for_Nil)
  have ln: "length xs < 2147483648" using l1 by simp
  from drop_front_ok [OF ck ne ln] obtain rs' q' d where
    res: "drop_front ?rs xs = Inr (rs', q', d)" "xs = d @ q'" "q' \<noteq> []" "counts_ok rs' q'"
      "\<forall>r. nMaxQueueLength (rs' r) = nMaxQueueLength (?rs r)"
      "\<forall>r. \<not> over_cap ?rs r \<longrightarrow> count_for r d = 0"
    by blast
  have "nQueuedEvents (?rs r) = K" using ck cx by (simp add: counts_ok_def)
  moreover have "nMaxQueueLength (?rs r) = K" using mx by (simp add: dec_queued_max)
  ultimately have "\<not> over_cap ?rs r" by (simp add: over_cap_def)
  with res(6) have d0: "count_for r d = 0" by blast
  with res(2) cx have cq: "int (count_for r q') = K" by (simp add: count_for_append)
  with res(4) have fin: "nQueuedEvents (rs' r) = K" by (simp add: counts_ok_def)
  have "queue events s = Inr (s1\<lparr>m_Queue := q', receivers := rs'\<rparr>, x # d)"
    using ins q1 tl res(1) by (simp add: queue_def)
  then show ?thesis using d0 xr fin cq by (simp add: count_for_Cons)
qed

text \<open>
  The amended claim at a concrete queue: maximum 2, three events in one batch, behind them
  an event of another receiver with a higher priority.
\<close>

theorem queue_cap_drops_one_witness:
  "\<exists>s' dropped.
     queue [queue_data 0 ''a1'' 5, queue_data 0 ''a2'' 5, queue_data 0 ''a3'' 5] capped_queue
       = Inr (s', dropped) \<and>
     count_for 0 dropped = 1 \<and> nQueuedEvents (receivers s' 0) = 2 \<and>
     int (count_for 0 (m_Queue s')) = 2"
proof -
  let ?b = "[queue_data 0 ''a1'' 5, queue_data 0 ''a2'' 5, queue_data 0 ''a3'' 5]"
  let ?s1 = "capped_queue
      \<lparr>m_Queue := [queue_data 0 ''a3'' 5, queue_data 0 ''a2'' 5, queue_data 0 ''a1'' 5,
                   queue_data 1 ''b'' 9],
       receivers := (receivers capped_queue)(0 := receiver_info 2 3)\<rparr>"
  have inv: "counts_ok (receivers capped_queue) (m_Queue capped_queue)"
    by (simp add: counts_ok_def capped_queue_def count_for_def queue_data_def receiver_info_def)
  have len: "length (m_Queue capped_queue) + length ?b < 2147483648"
    by (simp add: capped_queue_def)
  have cap: "nMaxQueueLength (receivers capped_queue 0) = 2"
    by (simp add: capped_queue_def receiver_info_def)
  have one: "(1::int) \<le> 2" by simp
  have none: "count_for 0 (m_Queue capped_queue) = 0"
    by (simp add: capped_queue_def count_for_def queue_data_def)
  have batch: "int (count_for 0 ?b) = 2 + 1"
    by (simp add: count_for_def queue_data_def)
  have ins: "enqueue_all ?b capped_queue = Inr ?s1"
    by (simp add: sort_into_queue_def inc_queued_def capped_queue_def queue_data_def
        receiver_info_def int32_def fun_upd_twist)
  have head: "pReceiverInfo (hd (m_Queue ?s1)) = Some 0"
    by (simp add: queue_data_def)
  from queue_cap_drops_one [OF inv len cap one none batch ins head] show ?thesis .
qed

section \<open>Properties of attribute values and comparisons\<close>


lemma isNumber_string:
  "fst (isNumber fp (AttributeValue_string s)) = parses_fully fp s"
  by (auto simp: isNumber_def AttributeValue_string_def checkNumber_def parses_fully_def Let_def c_str_def
      split: prod.splits)

lemma getNumber_string:
  "fst (getNumber fp (AttributeValue_string s)) =
     (if parses_fully fp s then Inr (fst (strtod fp (c_str s))) else Inl (NoNumber s))"
  by (auto simp: getNumber_def AttributeValue_string_def checkNumber_def parses_fully_def Let_def c_str_def
      split: prod.splits)

lemma getText_string: "fst (getText fp (AttributeValue_string s)) = s"
  by (simp add: getText_def AttributeValue_string_def)

lemma isNumber_empty: "fst (isNumber fp AttributeValue_empty) = False"
  by (simp add: isNumber_def AttributeValue_empty_def)

lemma c_str_Nil: "c_str [] = []"
  by (simp add: c_str_def)

lemma isNumber_initialised: "initialised v \<Longrightarrow> fst (isNumber fp v) = (as_number fp v \<noteq> None)"
  by (cases "m_contentState v")
    (auto simp: initialised_def isNumber_def as_number_def getNumber_def checkNumber_def Let_def
      split: prod.splits sum.splits option.splits if_splits)

lemma getNumber_after_isNumber:
  "fst (getNumber fp (snd (isNumber fp v))) = fst (getNumber fp v)"
  by (cases "m_contentState v")
    (auto simp: isNumber_def getNumber_def checkNumber_def Let_def
      split: prod.splits sum.splits option.splits if_splits)

lemma getText_after_isNumber:
  "fst (getText fp (snd (isNumber fp v))) = fst (getText fp v)"
  by (cases "m_contentState v")
    (auto simp: isNumber_def getText_def checkNumber_def Let_def c_str_Nil
      split: prod.splits sum.splits option.splits if_splits)

lemma compare_numbers_as_number:
  "compare_numbers fp rel a b =
     (case as_number fp a of
        None \<Rightarrow> (case fst (getNumber fp a) of Inl e \<Rightarrow> Inl e | Inr x \<Rightarrow> Inr undefined)
      | Some x \<Rightarrow> (case as_number fp b of
                     None \<Rightarrow> (case fst (getNumber fp b) of Inl e \<Rightarrow> Inl e | Inr x \<Rightarrow> Inr undefined)
                   | Some y \<Rightarrow> Inr (rel x y)))"
  by (auto simp: compare_numbers_def as_number_def split: sum.splits option.splits)


lemma c_str_no_nul: "CHR 0x00 \<notin> set s \<Longrightarrow> c_str s = s"
  unfolding c_str_def by (induction s) auto

lemma isNumber_xml:
  "fst (isNumber fp (AttributeValue_xml (Some x))) = parses_fully fp (xml_value_text x)"
  by (auto simp: isNumber_def AttributeValue_xml_def checkNumber_def getText_def parses_fully_def
      Let_def c_str_Nil split: prod.splits)

lemma getNumber_empty: "fst (getNumber fp AttributeValue_empty) = Inl (NoNumber [])"
  by (simp add: getNumber_def AttributeValue_empty_def)

text \<open>
  Claim C10, amended. A text value is a number exactly if the numeric parse consumes all of
  the non-empty NUL-terminated string that \<^verbatim>\<open>c_str()\<close> hands to \<^verbatim>\<open>strtod\<close>: the text up to
  its first NUL character, which is the whole text when the text holds no NUL character.
  The same holds for the text of an XML value. \<^verbatim>\<open>getNumber\<close> returns the parsed value in
  that case and throws in every other, in particular for the empty value; \<^verbatim>\<open>getText\<close> has
  no failing branch and returns the text; \<^verbatim>\<open>isNumber\<close> is false on the empty value and on
  a value made from the empty string.
\<close>

theorem number_classification:
  "fst (isNumber fp (AttributeValue_string s)) = (c_str s \<noteq> [] \<and> snd (strtod fp (c_str s)) = []) \<and>
   (CHR 0x00 \<notin> set s \<longrightarrow>
      fst (isNumber fp (AttributeValue_string s)) = (s \<noteq> [] \<and> snd (strtod fp s) = [])) \<and>
   fst (isNumber fp (AttributeValue_xml (Some x))) =
     (c_str (xml_value_text x) \<noteq> [] \<and> snd (strtod fp (c_str (xml_value_text x))) = []) \<and>
   fst (getNumber fp (AttributeValue_string s)) =
     (if fst (isNumber fp (AttributeValue_string s)) then Inr (fst (strtod fp (c_str s)))
      else Inl (NoNumber s)) \<and>
   fst (getText fp (AttributeValue_string s)) = s \<and>
   fst (isNumber fp AttributeValue_empty) = False \<and>
   fst (isNumber fp (AttributeValue_string [])) = False \<and>
   fst (getNumber fp AttributeValue_empty) = Inl (NoNumber [])"
proof -
  have "CHR 0x00 \<notin> set s \<longrightarrow>
      fst (isNumber fp (AttributeValue_string s)) = (s \<noteq> [] \<and> snd (strtod fp s) = [])"
    by (simp add: isNumber_string parses_fully_def c_str_no_nul)
  moreover have "fst (isNumber fp (AttributeValue_string [])) = False"
    by (simp add: isNumber_string parses_fully_def c_str_Nil)
  ultimately show ?thesis
    using isNumber_string [of fp s] isNumber_xml [of fp x] getNumber_string [of fp s]
      getText_string [of fp s] isNumber_empty [of fp] getNumber_empty [of fp]
    by (simp add: parses_fully_def)
qed

lemma decimal_strtod [simp]:
  "strtod decimal_numerics s =
     (foldl (\<lambda>n c. 10 * n + digit_value c) 0 (takeWhile is_digit s), dropWhile is_digit s)"
  by (simp add: decimal_numerics_def)

text \<open>The classification of \<open>42\<close> and of \<open>42a\<close> under the decimal instance.\<close>

theorem number_classification_witness:
  "CHR 0x00 \<notin> set ''42'' \<and>
   fst (isNumber decimal_numerics (AttributeValue_string ''42'')) \<and>
   fst (getNumber decimal_numerics (AttributeValue_string ''42'')) = Inr 42 \<and>
   \<not> fst (isNumber decimal_numerics (AttributeValue_string ''42a'')) \<and>
   fst (getNumber decimal_numerics (AttributeValue_string ''42a'')) = Inl (NoNumber ''42a'')"
  using number_classification [of decimal_numerics "''42''" undefined]
    number_classification [of decimal_numerics "''42a''" undefined]
  by (simp add: c_str_def is_digit_def digit_value_def)

text \<open>
  Claim C10, as stated: a text value is a number only if the entire string is consumed by
  the numeric parse, and \<^verbatim>\<open>getNumber\<close> throws for every value that is not fully numeric.
  This fails for a text with a NUL character in it: of the four characters \<open>4\<close>, \<open>2\<close>, NUL,
  \<open>a\<close> the parse consumes two, and yet the value is a number and \<^verbatim>\<open>getNumber\<close> returns 42,
  because \<^verbatim>\<open>strtod\<close> is given \<^verbatim>\<open>c_str()\<close> and the test \<^verbatim>\<open>*endptr != 0\<close> finds the NUL.
\<close>

theorem embedded_nul_is_number_counterexample:
  "fst (getText decimal_numerics (AttributeValue_string [CHR ''4'', CHR ''2'', CHR 0x00, CHR ''a'']))
     = [CHR ''4'', CHR ''2'', CHR 0x00, CHR ''a''] \<and>
   snd (strtod decimal_numerics [CHR ''4'', CHR ''2'', CHR 0x00, CHR ''a'']) = [CHR 0x00, CHR ''a''] \<and>
   fst (isNumber decimal_numerics (AttributeValue_string [CHR ''4'', CHR ''2'', CHR 0x00, CHR ''a''])) \<and>
   fst (getNumber decimal_numerics (AttributeValue_string [CHR ''4'', CHR ''2'', CHR 0x00, CHR ''a'']))
     = Inr 42"
  by (simp add: getText_def isNumber_def getNumber_def checkNumber_def AttributeValue_string_def
      c_str_def is_digit_def digit_value_def Let_def)

text \<open>
  Claim C7, as stated: a comparison is numeric when both operands parse as numbers and
  compares the text forms lexicographically otherwise. This fails for the four ordering
  operators: they call \<^verbatim>\<open>getNumber\<close> on both operands, and the comparison of the texts \<open>a\<close>
  and \<open>b\<close> raises "Attribute is no number!" where the lexicographic order would say that
  \<open>a\<close> is less than \<open>b\<close>.
\<close>

theorem ordering_of_texts_raises_counterexample:
  "text_form decimal_numerics (AttributeValue_string ''a'') = ''a'' \<and>
   text_form decimal_numerics (AttributeValue_string ''b'') = ''b'' \<and>
   ''a'' < ''b'' \<and>
   doCompare decimal_numerics less (AttributeValue_string ''a'') (AttributeValue_string ''b'')
     = Inl (NoNumber ''a'') \<and>
   doCompare decimal_numerics lessEquals (AttributeValue_string ''a'') (AttributeValue_string ''b'')
     = Inl (NoNumber ''a'') \<and>
   doCompare decimal_numerics greater (AttributeValue_string ''b'') (AttributeValue_string ''a'')
     = Inl (NoNumber ''b'') \<and>
   doCompare decimal_numerics greaterEquals (AttributeValue_string ''b'') (AttributeValue_string ''a'')
     = Inl (NoNumber ''b'')"
  by (simp add: text_form_def getText_string doCompare_def compare_numbers_def getNumber_string
      parses_fully_def c_str_def is_digit_def less_char_def)

text \<open>
  Claim C7, amended: when both operands are numbers the comparison is numeric, for each
  of the six operators. Otherwise \<open>==\<close> and \<open>!=\<close> compare the text forms for equality when
  the left operand is not a number, and are false and true when the left operand is a
  number and the right one is not; the ordering operators raise an error. This is
  \<open>comparison_outcome\<close>, and \<^verbatim>\<open>doCompare\<close> computes it on all values whose state and
  double agree.
\<close>

theorem comparison_semantics:
  assumes "initialised a" "initialised b"
  shows "result_of (doCompare fp m_type a b) = comparison_outcome fp m_type a b"
proof -
  have na: "fst (isNumber fp a) = (as_number fp a \<noteq> None)"
    using assms(1) by (rule isNumber_initialised)
  have nb: "fst (isNumber fp b) = (as_number fp b \<noteq> None)"
    using assms(2) by (rule isNumber_initialised)
  have ga: "as_number fp (snd (isNumber fp a)) = as_number fp a"
    by (simp add: as_number_def getNumber_after_isNumber)
  have gb: "as_number fp (snd (isNumber fp b)) = as_number fp b"
    by (simp add: as_number_def getNumber_after_isNumber)
  have ta: "fst (getText fp (snd (isNumber fp a))) = fst (getText fp a)"
    by (rule getText_after_isNumber)
  have cn: "result_of (compare_numbers fp rel u v) =
      (case (as_number fp u, as_number fp v) of (Some x, Some y) \<Rightarrow> Some (rel x y) | _ \<Rightarrow> None)"
    for rel u v
    by (auto simp: result_of_def compare_numbers_def as_number_def split: sum.splits)
  show ?thesis
  proof (cases m_type)
    case equals
    then show ?thesis
      using na nb ga gb ta cn [of "d_eq fp" "snd (isNumber fp a)" "snd (isNumber fp b)"]
      by (auto simp: doCompare_def comparison_outcome_def numeric_result_def text_form_def
          result_of_def split: prod.splits option.splits)
  next
    case notEquals
    then show ?thesis
      using na nb ga gb ta
        cn [of "\<lambda>x y. \<not> d_eq fp x y" "snd (isNumber fp a)" "snd (isNumber fp b)"]
      by (auto simp: doCompare_def comparison_outcome_def numeric_result_def text_form_def
          result_of_def split: prod.splits option.splits)
  next
    case greater
    then show ?thesis
      using cn [of "\<lambda>x y. d_less fp y x" a b]
      by (auto simp: doCompare_def comparison_outcome_def numeric_result_def split: option.splits)
  next
    case less
    then show ?thesis
      using cn [of "d_less fp" a b]
      by (auto simp: doCompare_def comparison_outcome_def numeric_result_def split: option.splits)
  next
    case greaterEquals
    then show ?thesis
      using cn [of "\<lambda>x y. d_le fp y x" a b]
      by (auto simp: doCompare_def comparison_outcome_def numeric_result_def split: option.splits)
  next
    case lessEquals
    then show ?thesis
      using cn [of "d_le fp" a b]
      by (auto simp: doCompare_def comparison_outcome_def numeric_result_def split: option.splits)
  qed
qed

text \<open>
  The amended claim on \<open>7 < 12\<close>, which is true of the numbers and false of the texts, and
  on \<open>7 == 7a\<close>, where the right operand is no number.
\<close>

theorem comparison_semantics_witness:
  "initialised (AttributeValue_string ''7'' :: nat AttributeValue) \<and>
   initialised (AttributeValue_string ''12'' :: nat AttributeValue) \<and>
   result_of (doCompare decimal_numerics less (AttributeValue_string ''7'') (AttributeValue_string ''12''))
     = Some True \<and>
   \<not> ''7'' < ''12'' \<and>
   result_of (doCompare decimal_numerics equals (AttributeValue_string ''7'') (AttributeValue_string ''7a''))
     = Some False"
proof -
  have i: "initialised (AttributeValue_string s :: nat AttributeValue)" for s
    by (simp add: initialised_def AttributeValue_string_def)
  have n: "as_number decimal_numerics (AttributeValue_string ''7'') = Some 7"
      "as_number decimal_numerics (AttributeValue_string ''12'') = Some 12"
      "as_number decimal_numerics (AttributeValue_string ''7a'') = None"
    by (simp_all add: as_number_def getNumber_string parses_fully_def c_str_def is_digit_def
        digit_value_def)
  have d: "d_less decimal_numerics = (<)"
    by (simp add: decimal_numerics_def)
  show ?thesis
    using comparison_semantics [where a = "AttributeValue_string ''7''"
          and b = "AttributeValue_string ''12''" and fp = decimal_numerics and m_type = less]
      comparison_semantics [where a = "AttributeValue_string ''7''"
          and b = "AttributeValue_string ''7a''" and fp = decimal_numerics and m_type = equals]
    by (simp add: i n d comparison_outcome_def numeric_result_def less_char_def)
qed

section \<open>Properties of the generic graph\<close>

text \<open>
  Claim C9. \<^verbatim>\<open>addEdge\<close> with a name that the edge map already holds raises no error: it
  returns the new edge, leaves the edge map as it was, with the name still bound to the
  edge stored before, and appends the new edge to the out-edges of the source and to the
  in-edges of the target. The new edge is then in both incidence lists and is not among
  the edges that the edge map reaches.
\<close>

theorem addEdge_duplicate_name:
  assumes present: "map_find (m_Edges g) edgeName = Some old"
    and alloc: "edges_allocated g"
    and src: "node_objects g source \<noteq> None"
    and tgt: "node_objects g target \<noteq> None"
  shows "\<exists>newEdge g'. addEdge edgeName source target data g = Inr (newEdge, g') \<and>
           m_Edges g' = m_Edges g \<and>
           map_find (m_Edges g') edgeName = Some old \<and>
           newEdge \<noteq> old \<and>
           newEdge \<notin> snd ` set (m_Edges g') \<and>
           out_edges_of g' source = out_edges_of g source @ [newEdge] \<and>
           in_edges_of g' target = in_edges_of g target @ [newEdge] \<and>
           map_option edge_Name (edge_objects g' newEdge) = Some edgeName"
proof -
  from src obtain sn where sn: "node_objects g source = Some sn" by auto
  from tgt obtain tn where tn: "node_objects g target = Some tn" by auto
  have fresh: "next_object g \<notin> snd ` set (m_Edges g)"
    using alloc by (auto simp: edges_allocated_def list_all_iff)
  have "(edgeName, old) \<in> set (m_Edges g)"
    using present by (simp add: map_find_def map_of_SomeD)
  with fresh have neq: "next_object g \<noteq> old" by force
  have keep: "map_insert (m_Edges g) edgeName (next_object g) = m_Edges g"
    using present by (simp add: map_insert_def map_find_def)
  show ?thesis
    using sn tn present fresh neq keep
    by (auto simp: addEdge_def push_out_edge_def push_in_edge_def Let_def out_edges_of_def
        in_edges_of_def)
qed

text \<open>The graph with the edge \<open>e\<close> from \<open>A\<close> to \<open>B\<close>, and a second edge \<open>e\<close> added to it.\<close>

theorem addEdge_duplicate_name_witness:
  "map_find (m_Edges one_edge_graph) ''e'' = Some 2 \<and>
   (\<exists>newEdge g'. addEdge ''e'' 0 1 () one_edge_graph = Inr (newEdge, g') \<and>
      m_Edges g' = m_Edges one_edge_graph \<and>
      map_find (m_Edges g') ''e'' = Some 2 \<and>
      newEdge \<noteq> 2 \<and>
      newEdge \<notin> snd ` set (m_Edges g') \<and>
      out_edges_of g' 0 = out_edges_of one_edge_graph 0 @ [newEdge] \<and>
      in_edges_of g' 1 = in_edges_of one_edge_graph 1 @ [newEdge] \<and>
      map_option edge_Name (edge_objects g' newEdge) = Some ''e'')"
proof -
  have present: "map_find (m_Edges one_edge_graph) ''e'' = Some 2"
    by (simp add: one_edge_graph_def map_find_def)
  have alloc: "edges_allocated one_edge_graph"
    by (simp add: one_edge_graph_def edges_allocated_def)
  have src: "node_objects one_edge_graph 0 \<noteq> None"
    by (simp add: one_edge_graph_def)
  have tgt: "node_objects one_edge_graph 1 \<noteq> None"
    by (simp add: one_edge_graph_def)
  from addEdge_duplicate_name [OF present alloc src tgt, of "()"] present
  show ?thesis by simp
qed

section \<open>Properties of the SRG manager and the matcher\<close>

subsection \<open>Information sources of an instance\<close>

lemma set_set_insert: "set (set_insert s k) = insert k (set s)"
  by (auto simp: set_insert_def set_insort_key)

lemma set_insert_range: "set (insert_range s xs) = set s \<union> set xs"
  unfolding insert_range_def
  by (induction xs arbitrary: s) (auto simp: set_set_insert)

lemma expand_input_edges_sources:
  "expand_input_edges pGraph srg es m = Inr m' \<Longrightarrow>
   set (m_informationSources m') =
     set (m_informationSources m) \<union>
     (\<Union>f\<in>set (input_matches pGraph (m_edgeForwardMap m) es). set (sources_of srg f)) \<and>
   m_edgeForwardMap m' = m_edgeForwardMap m"
proof (induction es arbitrary: m)
  case Nil
  then show ?case by (simp add: input_matches_def)
next
  case (Cons it rest)
  from Cons.prems obtain patternEdge where pe: "edge_objects pGraph (snd it) = Some patternEdge"
    by (auto split: option.splits)
  show ?case
  proof (cases "isInput (edge_attributes patternEdge)")
    case False
    with Cons.prems pe have r: "expand_input_edges pGraph srg rest m = Inr m'" by simp
    have eq: "input_matches pGraph (m_edgeForwardMap m) (it # rest) =
        input_matches pGraph (m_edgeForwardMap m) rest"
      using pe False by (simp add: input_matches_def)
    from Cons.IH [OF r] show ?thesis unfolding eq .
  next
    case True
    with Cons.prems pe obtain f where f: "getCorrespondingSrgEdge m (snd it) = Inr f"
      by (auto split: sum.splits)
    then have mf: "map_find (m_edgeForwardMap m) (snd it) = Some f"
      by (auto simp: getCorrespondingSrgEdge_def split: option.splits)
    from Cons.prems pe True f obtain se where se: "edge_objects srg f = Some se"
      by (auto split: option.splits)
    let ?m = "m\<lparr>m_allInputAttributes :=
                  map_assign (m_allInputAttributes m) (edge_Name patternEdge) (SrgEdge f),
                m_informationSources :=
                  insert_range (m_informationSources m) (m_InformationSources (edge_attributes se))\<rparr>"
    from Cons.prems pe True f se have "expand_input_edges pGraph srg rest ?m = Inr m'" by simp
    from Cons.IH [OF this] have
      "set (m_informationSources m') =
         set (m_informationSources ?m) \<union>
         (\<Union>f\<in>set (input_matches pGraph (m_edgeForwardMap m) rest). set (sources_of srg f))"
      "m_edgeForwardMap m' = m_edgeForwardMap m"
      by simp_all
    moreover have "set (m_informationSources ?m) = set (m_informationSources m) \<union> set (sources_of srg f)"
      using se by (simp add: set_insert_range sources_of_def)
    moreover have "input_matches pGraph (m_edgeForwardMap m) (it # rest) =
        f # input_matches pGraph (m_edgeForwardMap m) rest"
      using pe True mf by (simp add: input_matches_def)
    ultimately show ?thesis by auto
  qed
qed

lemma expand_input_nodes_keeps:
  "expand_input_nodes pGraph es m = Inr m' \<Longrightarrow>
   m_informationSources m' = m_informationSources m \<and> m_edgeForwardMap m' = m_edgeForwardMap m"
proof (induction es arbitrary: m)
  case Nil
  then show ?case by simp
next
  case (Cons it rest)
  from Cons.prems obtain patternNode where pn: "node_objects pGraph (snd it) = Some patternNode"
    by (auto split: option.splits)
  show ?case
  proof (cases "isInput (node_attributes patternNode)")
    case False
    with Cons.prems pn have "expand_input_nodes pGraph rest m = Inr m'" by simp
    from Cons.IH [OF this] show ?thesis .
  next
    case True
    with Cons.prems pn obtain v where v: "getCorrespondingSrgVertex m (snd it) = Inr v"
      by (auto split: sum.splits)
    let ?m = "m\<lparr>m_allInputAttributes :=
                  map_assign (m_allInputAttributes m) (node_Name patternNode) (SrgNode v)\<rparr>"
    from Cons.prems pn True v have "expand_input_nodes pGraph rest ?m = Inr m'" by simp
    from Cons.IH [OF this] show ?thesis by simp
  qed
qed

lemma expand_output_edges_keeps:
  "expand_output_edges fp fn pGraph srg es m = Inr m' \<Longrightarrow>
   m_informationSources m' = m_informationSources m \<and> m_edgeForwardMap m' = m_edgeForwardMap m"
proof (induction es arbitrary: m)
  case Nil
  then show ?case by simp
next
  case (Cons it rest)
  from Cons.prems obtain patternEdge where pe: "edge_objects pGraph (snd it) = Some patternEdge"
    by (auto split: option.splits)
  show ?case
  proof (cases "isOutput (edge_attributes patternEdge)")
    case False
    with Cons.prems pe have "expand_output_edges fp fn pGraph srg rest m = Inr m'" by simp
    from Cons.IH [OF this] show ?thesis .
  next
    case True
    with Cons.prems pe obtain na where na:
      "expand_expressions fp fn (global_context srg m) (m_attributeExpressions (edge_attributes patternEdge))
         (m_Values (edge_attributes patternEdge)) = Inr na"
      by (auto split: sum.splits)
    let ?m = "m\<lparr>m_expandedEdgeAttributes :=
                  map_assign (m_expandedEdgeAttributes m) (edge_Name patternEdge) na\<rparr>"
    from Cons.prems pe True na have "expand_output_edges fp fn pGraph srg rest ?m = Inr m'" by simp
    from Cons.IH [OF this] show ?thesis by simp
  qed
qed

lemma expand_output_nodes_keeps:
  "expand_output_nodes fp fn pGraph srg es m = Inr m' \<Longrightarrow>
   m_informationSources m' = m_informationSources m \<and> m_edgeForwardMap m' = m_edgeForwardMap m"
proof (induction es arbitrary: m)
  case Nil
  then show ?case by simp
next
  case (Cons it rest)
  from Cons.prems obtain patternNode where pn: "node_objects pGraph (snd it) = Some patternNode"
    by (auto split: option.splits)
  show ?case
  proof (cases "isOutput (node_attributes patternNode)")
    case False
    with Cons.prems pn have "expand_output_nodes fp fn pGraph srg rest m = Inr m'" by simp
    from Cons.IH [OF this] show ?thesis .
  next
    case True
    with Cons.prems pn obtain na where na:
      "expand_expressions fp fn (global_context srg m) (m_attributeExpressions (node_attributes patternNode))
         (m_Values (node_attributes patternNode)) = Inr na"
      by (auto split: sum.splits)
    let ?m = "m\<lparr>m_expandedNodeAttributes :=
                  map_assign (m_expandedNodeAttributes m) (node_Name patternNode) na\<rparr>"
    from Cons.prems pn True na have "expand_output_nodes fp fn pGraph srg rest ?m = Inr m'" by simp
    from Cons.IH [OF this] show ?thesis by simp
  qed
qed

lemma expandMatchingAttributes_sources:
  assumes "expandMatchingAttributes fp fn pattern srg m = Inr m'"
  shows "set (m_informationSources m') =
           (\<Union>f\<in>set (matched_input_edges pattern m). set (sources_of srg f)) \<and>
         m_edgeForwardMap m' = m_edgeForwardMap m"
proof -
  let ?g = "m_Graph pattern"
  let ?m0 = "m\<lparr>m_informationSources := [], m_expandedNodeAttributes := [],
                m_expandedEdgeAttributes := []\<rparr>"
  from assms obtain m1 m2 m3 where
    s1: "expand_input_edges ?g srg (m_Edges ?g) ?m0 = Inr m1" and
    s2: "expand_input_nodes ?g (m_Nodes ?g) m1 = Inr m2" and
    s3: "expand_output_edges fp fn ?g srg (m_Edges ?g) m2 = Inr m3" and
    s4: "expand_output_nodes fp fn ?g srg (m_Nodes ?g) m3 = Inr m'"
    by (auto simp: expandMatchingAttributes_def Let_def split: sum.splits)
  from expand_input_edges_sources [OF s1] expand_input_nodes_keeps [OF s2]
    expand_output_edges_keeps [OF s3] expand_output_nodes_keeps [OF s4]
  show ?thesis by (simp add: matched_input_edges_def)
qed


lemma instantiate_nodes_keeps:
  "instantiate_nodes srg es s = Inr s' \<Longrightarrow>
   m_informationSources (inst_matching s') = m_informationSources (inst_matching s) \<and>
   edge_objects (inst_pattern s') = edge_objects (inst_pattern s) \<and>
   m_Edges (inst_pattern s') = m_Edges (inst_pattern s)"
proof (induction es arbitrary: s)
  case Nil
  then show ?case by simp
next
  case (Cons it rest)
  from Cons.prems obtain s1 where
    "instantiate_nodes srg rest s1 = Inr s'"
    "m_informationSources (inst_matching s1) = m_informationSources (inst_matching s)"
    "edge_objects (inst_pattern s1) = edge_objects (inst_pattern s)"
    "m_Edges (inst_pattern s1) = m_Edges (inst_pattern s)"
    by (auto simp: Let_def update_node_def split: option.splits sum.splits prod.splits if_splits)
  with Cons.IH [of s1] show ?case by simp
qed

lemma instantiate_input_edge_keeps:
  "instantiate_input_edge srg pe patternEdge source target s = Inr s' \<Longrightarrow>
   inst_matching s' = inst_matching s \<and> inst_pattern s' = inst_pattern s"
  by (auto simp: instantiate_input_edge_def split: option.splits sum.splits prod.splits)

lemma instantiate_output_edge_keeps:
  "instantiate_output_edge patternEdge source target s = Inr s' \<Longrightarrow>
   m_informationSources (inst_matching s') = m_informationSources (inst_matching s) \<and>
   inst_pattern s' = inst_pattern s"
  by (auto simp: instantiate_output_edge_def Let_def split: option.splits sum.splits prod.splits)

lemma instantiate_edges_keeps:
  "instantiate_edges srg es s = Inr s' \<Longrightarrow>
   m_informationSources (inst_matching s') = m_informationSources (inst_matching s) \<and>
   inst_pattern s' = inst_pattern s"
proof (induction es arbitrary: s)
  case Nil
  then show ?case by simp
next
  case (Cons it rest)
  from Cons.prems obtain patternEdge source target s1 s2 where
    a: "(if isInput (edge_attributes patternEdge)
         then instantiate_input_edge srg (snd it) patternEdge source target s else Inr s) = Inr s1"
    and b: "(if isOutput (edge_attributes patternEdge)
         then instantiate_output_edge patternEdge source target s1 else Inr s1) = Inr s2"
    and c: "instantiate_edges srg rest s2 = Inr s'"
    by (auto split: option.splits sum.splits)
  from a have a': "inst_matching s1 = inst_matching s \<and> inst_pattern s1 = inst_pattern s"
    by (auto dest: instantiate_input_edge_keeps split: if_splits)
  from b have b': "m_informationSources (inst_matching s2) = m_informationSources (inst_matching s1) \<and>
      inst_pattern s2 = inst_pattern s1"
    by (auto dest: instantiate_output_edge_keeps split: if_splits)
  from Cons.IH [OF c] a' b' show ?case by simp
qed

lemma instanciatePattern_keeps:
  assumes "instanciatePattern pattern srg m = Inr inst"
  shows "m_informationSources (inst_matching inst) = m_informationSources m \<and>
         edge_objects (inst_pattern inst) = edge_objects (m_Graph pattern) \<and>
         m_Edges (inst_pattern inst) = m_Edges (m_Graph pattern)"
proof -
  define s0 where "s0 = \<lparr>inst_subgraph =
                  UTQLSubgraph_new
                    \<lparr>m_Name := pattern_Name pattern,
                     m_DataflowConfiguration := m_DataflowConfiguration (m_Graph pattern),
                     m_DataflowAttributes := m_DataflowAttributes (m_Graph pattern)\<rparr>,
                newNodesMap = [], inst_matching = m, inst_pattern = m_Graph pattern\<rparr>"
  have s0: "m_informationSources (inst_matching s0) = m_informationSources m"
        "inst_pattern s0 = m_Graph pattern"
    by (simp_all add: s0_def)
  from assms obtain s1 where
    n: "instantiate_nodes srg (m_Nodes (m_Graph pattern)) s0 = Inr s1"
    and e: "instantiate_edges srg (m_Edges (m_Graph pattern)) s1 = Inr inst"
    by (auto simp: instanciatePattern_def Let_def s0_def split: sum.splits)
  from instantiate_nodes_keeps [OF n] instantiate_edges_keeps [OF e] s0
  show ?thesis by simp
qed

lemma addEdge_edge_objects:
  "addEdge edgeName source target data g = Inr (a, g') \<Longrightarrow>
   a = next_object g \<and> next_object g' = Suc (next_object g) \<and>
   edge_objects g' = (edge_objects g)
     (a \<mapsto> \<lparr>edge_attributes = data, edge_Name = edgeName, m_Source = Some source, m_Target = Some target\<rparr>)"
  by (auto simp: addEdge_def push_out_edge_def push_in_edge_def Let_def split: option.splits sum.splits)

lemma insert_output_edge_sources:
  assumes "insert_output_edge pattern subgraph matching edge srg = Inr srg1"
  shows "next_object srg1 = Suc (next_object srg) \<and>
         has_sources srg1 (next_object srg) (m_informationSources matching) \<and>
         (\<forall>a. a \<noteq> next_object srg \<longrightarrow> edge_objects srg1 a = edge_objects srg a)"
proof -
  from assms obtain edgeName source target data a g1 where
    add: "addEdge edgeName source target data srg = Inr (a, g1)" and
    upd: "srg1 = update_edge a
            (\<lambda>x. x\<lparr>m_InformationSources := m_informationSources matching,
                   m_PatternName := pattern_Name pattern\<rparr>) g1"
    by (auto simp: insert_output_edge_def split: option.splits sum.splits prod.splits)
  from addEdge_edge_objects [OF add] upd show ?thesis
    by (auto simp: update_edge_def has_sources_def)
qed

lemma apply_edges_sources:
  "apply_edges pattern subgraph matching pGraph es srg = Inr srg' \<Longrightarrow>
   \<forall>a. n0 \<le> a \<and> a < next_object srg \<longrightarrow> has_sources srg a (m_informationSources matching) \<Longrightarrow>
   (\<forall>a. n0 \<le> a \<and> a < next_object srg' \<longrightarrow> has_sources srg' a (m_informationSources matching)) \<and>
   next_object srg' = next_object srg + length (output_edges_in pGraph es)"
proof (induction es arbitrary: srg)
  case Nil
  then show ?case by (simp add: output_edges_in_def)
next
  case (Cons it rest)
  from Cons.prems(1) obtain edge where e: "edge_objects pGraph (snd it) = Some edge"
    by (auto split: option.splits)
  show ?case
  proof (cases "isInput (edge_attributes edge)")
    case True
    then have no: "\<not> isOutput (edge_attributes edge)" by (simp add: isInput_def isOutput_def)
    from Cons.prems(1) e True obtain f where
      r: "apply_edges pattern subgraph matching pGraph rest
            (update_edge f (\<lambda>a. a\<lparr>m_DependantSubgraphIDs :=
                 set_insert (m_DependantSubgraphIDs a) (m_ID subgraph)\<rparr>) srg) = Inr srg'"
      by (auto split: sum.splits if_splits)
    let ?srg = "update_edge f (\<lambda>a. a\<lparr>m_DependantSubgraphIDs :=
                 set_insert (m_DependantSubgraphIDs a) (m_ID subgraph)\<rparr>) srg"
    have keep: "has_sources ?srg a S = has_sources srg a S" for a S
      by (auto simp: has_sources_def update_edge_def split: option.splits)
    have nx: "next_object ?srg = next_object srg" by (simp add: update_edge_def)
    have inv: "\<forall>a. n0 \<le> a \<and> a < next_object ?srg \<longrightarrow> has_sources ?srg a (m_informationSources matching)"
      using Cons.prems(2) keep nx by simp
    from Cons.IH [OF r inv] e no nx show ?thesis by (simp add: output_edges_in_def)
  next
    case False
    then have out: "isOutput (edge_attributes edge)"
      by (cases "m_Tag (edge_attributes edge)") (simp_all add: isInput_def isOutput_def)
    from Cons.prems(1) e False out obtain srg1 where
      ins: "insert_output_edge pattern subgraph matching edge srg = Inr srg1" and
      r: "apply_edges pattern subgraph matching pGraph rest srg1 = Inr srg'"
      by (auto split: sum.splits)
    from insert_output_edge_sources [OF ins] have
      nx: "next_object srg1 = Suc (next_object srg)" and
      new: "has_sources srg1 (next_object srg) (m_informationSources matching)" and
      old: "\<forall>a. a \<noteq> next_object srg \<longrightarrow> edge_objects srg1 a = edge_objects srg a"
      by simp_all
    have inv: "\<forall>a. n0 \<le> a \<and> a < next_object srg1 \<longrightarrow> has_sources srg1 a (m_informationSources matching)"
    proof (intro allI impI)
      fix a assume a: "n0 \<le> a \<and> a < next_object srg1"
      show "has_sources srg1 a (m_informationSources matching)"
      proof (cases "a = next_object srg")
        case True
        with new show ?thesis by simp
      next
        case False
        with a nx have "a < next_object srg" by simp
        with a Cons.prems(2) have "has_sources srg a (m_informationSources matching)" by simp
        with old False show ?thesis by (simp add: has_sources_def)
      qed
    qed
    from Cons.IH [OF r inv] e out nx show ?thesis by (simp add: output_edges_in_def)
  qed
qed

lemma applyDetectedPattern_sources:
  assumes expand: "expandMatchingAttributes fp fn pattern (m_GlobalSrg mgr) it = Inr expanded"
    and applied: "applyDetectedPattern pattern expanded mgr = Inr (mgr', it', pattern')"
  shows "next_object (m_GlobalSrg mgr') =
           next_object (m_GlobalSrg mgr)
             + length (output_edges_in (m_Graph pattern) (m_Edges (m_Graph pattern))) \<and>
         (\<forall>a. next_object (m_GlobalSrg mgr) \<le> a \<and> a < next_object (m_GlobalSrg mgr') \<longrightarrow>
            (\<exists>e. edge_objects (m_GlobalSrg mgr') a = Some e \<and>
               set (m_InformationSources (edge_attributes e)) =
                 (\<Union>f\<in>set (matched_input_edges pattern it). set (sources_of (m_GlobalSrg mgr) f))))"
proof -
  let ?srg = "m_GlobalSrg mgr"
  from applied obtain inst srg' sg where
    inst: "instanciatePattern pattern ?srg expanded = Inr inst" and
    ae: "apply_edges (pattern\<lparr>m_Graph := inst_pattern inst\<rparr>) sg (inst_matching inst)
           (inst_pattern inst) (m_Edges (inst_pattern inst)) ?srg = Inr srg'" and
    m': "m_GlobalSrg mgr' = srg'"
    by (auto simp: applyDetectedPattern_def Let_def split: sum.splits)
  from instanciatePattern_keeps [OF inst] have
    k: "m_informationSources (inst_matching inst) = m_informationSources expanded"
       "edge_objects (inst_pattern inst) = edge_objects (m_Graph pattern)"
       "m_Edges (inst_pattern inst) = m_Edges (m_Graph pattern)"
    by simp_all
  have inv0: "\<forall>a. next_object ?srg \<le> a \<and> a < next_object ?srg \<longrightarrow>
      has_sources ?srg a (m_informationSources (inst_matching inst))"
    by (simp add: not_less [symmetric])
  from apply_edges_sources [OF ae inv0] have
    r: "\<forall>a. next_object ?srg \<le> a \<and> a < next_object srg' \<longrightarrow>
          has_sources srg' a (m_informationSources (inst_matching inst))"
       "next_object srg' = next_object ?srg
          + length (output_edges_in (inst_pattern inst) (m_Edges (inst_pattern inst)))"
    by simp_all
  have oe: "output_edges_in (inst_pattern inst) (m_Edges (inst_pattern inst)) =
      output_edges_in (m_Graph pattern) (m_Edges (m_Graph pattern))"
    using k by (simp add: output_edges_in_def)
  from expandMatchingAttributes_sources [OF expand] have
    u: "set (m_informationSources expanded) =
          (\<Union>f\<in>set (matched_input_edges pattern it). set (sources_of ?srg f))"
    by simp
  show ?thesis
    using r oe u k(1) m'
    by (auto simp: has_sources_def split: option.splits)
qed


text \<open>
  Claim C3. When the body of the loop of \<^verbatim>\<open>applyPattern\<close> instantiates a matching, the SRG
  receives one new edge object per output edge of the pattern and nothing else, and every
  one of these edges carries as information sources exactly the union of the information
  sources of the SRG edges that the input edges of the pattern are matched to.
\<close>

theorem instance_edges_carry_union:
  assumes "apply_matching fp fn decidePattern2 it (pattern, mgr) = Inr ((pattern', mgr'), True, supersedes)"
  shows "next_object (m_GlobalSrg mgr') =
           next_object (m_GlobalSrg mgr)
             + length (output_edges_in (m_Graph pattern) (m_Edges (m_Graph pattern))) \<and>
         (\<forall>a. next_object (m_GlobalSrg mgr) \<le> a \<and> a < next_object (m_GlobalSrg mgr') \<longrightarrow>
            (\<exists>e. edge_objects (m_GlobalSrg mgr') a = Some e \<and>
               set (m_InformationSources (edge_attributes e)) =
                 (\<Union>f\<in>set (matched_input_edges pattern it). set (sources_of (m_GlobalSrg mgr) f))))"
proof -
  from assms obtain expanded m1 where
    "expandMatchingAttributes fp fn pattern (m_GlobalSrg mgr) it = Inr expanded"
    "applyDetectedPattern pattern expanded mgr = Inr (mgr', m1, pattern')"
    by (auto simp: apply_matching_def split: sum.splits if_splits prod.splits)
  then show ?thesis by (rule applyDetectedPattern_sources)
qed

lemmas concrete_defs = no_functions_def accept_all_def pattern_node_def pattern_edge_def
  concat_graph_def concat_pattern_def srg_node_def srg_edge_def manager_of_def matching_of_def
  chain_srg_def chain_matching_def inverse_srg_def inverse_matching_def
  UTQLSubgraph_new_def UTQLNode_new_def UTQLEdge_new_def EdgeMatching_new_def
  SearchPlanElement_edge_def EdgeReference_new_def EdgeReference_default_def SRGEdgeAttributes_new_def

lemma chain_applies:
  "\<exists>pattern' mgr'. apply_matching decimal_numerics no_functions accept_all chain_matching
      (concat_pattern, manager_of chain_srg) = Inr ((pattern', mgr'), True, [])"
  by (simp add: concrete_defs apply_matching_def decidePattern1_def shares_source_def sources_of_def
      expandMatchingAttributes_def getCorrespondingSrgEdge_def getCorrespondingSrgVertex_def
      map_find_def map_assign_def map_insert_def set_insert_def insert_range_def isInput_def isOutput_def
      applyDetectedPattern_def instanciatePattern_def instance_end_def instantiate_input_edge_def
      instantiate_output_edge_def insert_output_edge_def addNode_def addEdge_def getEdge_def hasEdge_def
      push_out_edge_def push_in_edge_def update_node_def update_edge_def expanded_entry_def
      mergeAttributes_def global_context_def resolve_def Let_def)

text \<open>
  The chain \<open>A \<rightarrow> B \<rightarrow> C\<close> with sources \<open>s1\<close> and \<open>s2\<close>: concatenation inserts one edge,
  with sources \<open>s1\<close> and \<open>s2\<close>.
\<close>

theorem instance_edges_carry_union_witness:
  "\<exists>pattern' mgr'.
      apply_matching decimal_numerics no_functions accept_all chain_matching
        (concat_pattern, manager_of chain_srg) = Inr ((pattern', mgr'), True, []) \<and>
      next_object (m_GlobalSrg mgr') = 6 \<and>
      (\<exists>e. edge_objects (m_GlobalSrg mgr') 5 = Some e \<and>
           set (m_InformationSources (edge_attributes e)) = {''s1'', ''s2''})"
proof -
  from chain_applies obtain pattern' mgr' where
    a: "apply_matching decimal_numerics no_functions accept_all chain_matching
          (concat_pattern, manager_of chain_srg) = Inr ((pattern', mgr'), True, [])"
    by blast
  have m: "matched_input_edges concat_pattern chain_matching = [3, 4]"
    by (simp add: matched_input_edges_def input_matches_def concrete_defs isInput_def map_find_def)
  have s: "sources_of (m_GlobalSrg (manager_of chain_srg)) 3 = [''s1'']"
    "sources_of (m_GlobalSrg (manager_of chain_srg)) 4 = [''s2'']"
    by (simp_all add: sources_of_def concrete_defs)
  have n: "next_object (m_GlobalSrg (manager_of chain_srg)) = 5"
    by (simp add: concrete_defs)
  have l: "length (output_edges_in (m_Graph concat_pattern) (m_Edges (m_Graph concat_pattern))) = 1"
    by (simp add: output_edges_in_def concrete_defs isOutput_def)
  from instance_edges_carry_union [OF a] m s n l
  have r: "next_object (m_GlobalSrg mgr') = 6 \<and>
      (\<exists>e. edge_objects (m_GlobalSrg mgr') 5 = Some e \<and>
           set (m_InformationSources (edge_attributes e)) = {''s1'', ''s2''})"
    by (simp add: eval_nat_numeral le_Suc_eq less_Suc_eq insert_commute)
  show ?thesis by (rule exI, rule exI) (rule conjI [OF a r])
qed

subsection \<open>Stage 1 of the acceptance\<close>

lemma shares_sourceI: "s \<in> set a \<Longrightarrow> s \<in> set b \<Longrightarrow> shares_source a b"
  by (auto simp: shares_source_def list_ex_iff)

lemma decidePattern1_shared:
  assumes one: "(e1, f1) \<in> set (m_edgeForwardMap it)"
    and other: "(e2, f2) \<in> set (m_edgeForwardMap it)"
    and distinct: "f1 \<noteq> f2"
    and live: "\<forall>x\<in>set (m_edgeForwardMap it). edge_objects srg (snd x) \<noteq> None"
    and share: "s \<in> set (sources_of srg f1)" "s \<in> set (sources_of srg f2)"
  shows "decidePattern1 srg it = Inr False"
proof -
  let ?fwd = "m_edgeForwardMap it"
  from one obtain i where i: "i < length ?fwd" "?fwd ! i = (e1, f1)"
    by (auto simp: in_set_conv_nth)
  from other obtain j where j: "j < length ?fwd" "?fwd ! j = (e2, f2)"
    by (auto simp: in_set_conv_nth)
  from i j distinct have ij: "i \<noteq> j" by auto
  with i j have len: "1 < length ?fwd" by linarith
  have sh: "shares_source (sources_of srg (snd (?fwd ! i))) (sources_of srg (snd (?fwd ! j)))"
    using i j share by (simp add: shares_sourceI)
  have ex: "list_ex (\<lambda>it'. list_ex (\<lambda>itOther.
                it' \<noteq> itOther \<and>
                shares_source (sources_of srg (snd (?fwd ! it'))) (sources_of srg (snd (?fwd ! itOther))))
              [0..<length ?fwd]) [0..<length ?fwd]"
    unfolding list_ex_iff
    by (rule bexI [of _ i], rule bexI [of _ j]) (use i(1) j(1) ij sh in auto)
  have nd: "\<not> list_ex (\<lambda>it'. edge_objects srg (snd it') = None) ?fwd"
    using live by (auto simp: list_ex_iff)
  show ?thesis
    using len ex nd by (simp add: decidePattern1_def Let_def)
qed

text \<open>
  Claim C5. A matching whose edge correspondence holds two different SRG edges with a common
  information source has more than one matched edge, is rejected by stage 1 of the
  acceptance, and the body of the loop of \<^verbatim>\<open>applyPattern\<close> returns the manager and the
  pattern unchanged: no instance is made and no edge is inserted.
\<close>

theorem shared_source_rejected:
  assumes one: "(e1, f1) \<in> set (m_edgeForwardMap it)"
    and other: "(e2, f2) \<in> set (m_edgeForwardMap it)"
    and distinct: "f1 \<noteq> f2"
    and live: "\<forall>x\<in>set (m_edgeForwardMap it). edge_objects (m_GlobalSrg mgr) (snd x) \<noteq> None"
    and share: "s \<in> set (sources_of (m_GlobalSrg mgr) f1)" "s \<in> set (sources_of (m_GlobalSrg mgr) f2)"
  shows "1 < length (m_edgeForwardMap it) \<and>
         decidePattern1 (m_GlobalSrg mgr) it = Inr False \<and>
         apply_matching fp fn decidePattern2 it (pattern, mgr) = Inr ((pattern, mgr), False, [])"
proof -
  have d: "decidePattern1 (m_GlobalSrg mgr) it = Inr False"
    using assms by (rule decidePattern1_shared)
  from one obtain i where i: "i < length (m_edgeForwardMap it)" "m_edgeForwardMap it ! i = (e1, f1)"
    by (auto simp: in_set_conv_nth)
  from other obtain j where j: "j < length (m_edgeForwardMap it)" "m_edgeForwardMap it ! j = (e2, f2)"
    by (auto simp: in_set_conv_nth)
  from i j distinct have "i \<noteq> j" by auto
  with i j have "1 < length (m_edgeForwardMap it)" by linarith
  with d show ?thesis by (simp add: apply_matching_def)
qed

text \<open>
  The base edge \<open>A \<rightarrow> B\<close> and its inverse \<open>B \<rightarrow> A\<close>, which carries the same source: the
  concatenation of the two is rejected and the SRG stays as it is, without an edge from
  \<open>A\<close> to \<open>A\<close>.
\<close>

theorem shared_source_rejected_witness:
  "(3, 2) \<in> set (m_edgeForwardMap inverse_matching) \<and>
   (4, 3) \<in> set (m_edgeForwardMap inverse_matching) \<and>
   ''base:ab'' \<in> set (sources_of inverse_srg 2) \<and>
   ''base:ab'' \<in> set (sources_of inverse_srg 3) \<and>
   decidePattern1 inverse_srg inverse_matching = Inr False \<and>
   apply_matching decimal_numerics no_functions accept_all inverse_matching
       (concat_pattern, manager_of inverse_srg)
     = Inr ((concat_pattern, manager_of inverse_srg), False, [])"
proof -
  have g: "m_GlobalSrg (manager_of inverse_srg) = inverse_srg"
    by (simp add: manager_of_def)
  have f: "m_edgeForwardMap inverse_matching = [(3, 2), (4, 3)]"
    by (simp add: inverse_matching_def matching_of_def EdgeMatching_new_def)
  have one: "(3, 2) \<in> set (m_edgeForwardMap inverse_matching)"
    and other: "(4, 3) \<in> set (m_edgeForwardMap inverse_matching)"
    by (simp_all add: f)
  have e: "edge_objects inverse_srg 2 \<noteq> None" "edge_objects inverse_srg 3 \<noteq> None"
    by (simp_all add: inverse_srg_def)
  have live: "\<forall>x\<in>set (m_edgeForwardMap inverse_matching).
      edge_objects (m_GlobalSrg (manager_of inverse_srg)) (snd x) \<noteq> None"
    unfolding f g using e by simp
  have s0: "''base:ab'' \<in> set (sources_of inverse_srg 2)"
    "''base:ab'' \<in> set (sources_of inverse_srg 3)"
    by (simp_all add: sources_of_def inverse_srg_def srg_edge_def)
  have s: "''base:ab'' \<in> set (sources_of (m_GlobalSrg (manager_of inverse_srg)) 2)"
    "''base:ab'' \<in> set (sources_of (m_GlobalSrg (manager_of inverse_srg)) 3)"
    unfolding g by (rule s0)+
  have d: "(2::nat) \<noteq> 3" by simp
  from shared_source_rejected [OF one other d live s,
      of decimal_numerics no_functions accept_all concat_pattern]
  have "decidePattern1 inverse_srg inverse_matching = Inr False \<and>
   apply_matching decimal_numerics no_functions accept_all inverse_matching
       (concat_pattern, manager_of inverse_srg)
     = Inr ((concat_pattern, manager_of inverse_srg), False, [])"
    unfolding g by (elim conjE) (intro conjI)
  with one other s0 show ?thesis by (intro conjI) (elim conjE, assumption)+
qed

subsection \<open>The node step with a required id\<close>

lemma typed_id_plan:
  "map_sum id plan (search_plan_start decimal_numerics typed_id_pattern_graph)
     = Inr (m_searchPlan typed_id_pattern)"
  by (simp add: search_plan_start_def id_node_step_def typed_id_pattern_graph_def typed_id_pattern_def
      UTQLSubgraph_new_def UTQLNode_new_def AttributeExpressionConstant_new_def plan_state_new_def
      SearchPlanElement_node_def set_insert_def getText_def isNumber_def checkNumber_def
      AttributeValue_string_def c_str_def is_digit_def Let_def)

lemma typed_id_incompatible:
  "isVertexCompatible decimal_numerics no_functions (m_Graph typed_id_pattern) 0 node_A_srg 0 = Inr False"
  by (simp add: typed_id_pattern_graph_def typed_id_pattern_def
      UTQLSubgraph_new_def UTQLNode_new_def AttributeExpressionConstant_new_def
      getText_def isNumber_def checkNumber_def
      AttributeValue_string_def c_str_def is_digit_def Let_def
      isVertexCompatible_def node_A_srg_def predicates_hold_def local_context_def isGlobal_def
      hasAttribute_def getAttribute_def map_find_def doCompare_def)

text \<open>
  Claim C6. For a pattern node that is not yet bound, a step with a required id binds the
  node to the SRG node registered under this id whatever the predicates of the pattern
  node are: \<^verbatim>\<open>isVertexCompatible\<close> is not called on this branch.
\<close>

theorem id_step_binds_unchecked:
  assumes "\<not> isPatternVertexMatched state pVertex"
    and "sId \<noteq> []"
    and "map_find (m_NodeIDMap srg) sId = Some v"
  shows "match_vertex fp fn p srg state (SearchPlanElement_node pVertex sId)
           = Inr [state\<lparr>m_vertexForwardMap := associate (m_vertexForwardMap state) pVertex v,
                        m_vertexBackwardMap := associate (m_vertexBackwardMap state) v pVertex\<rparr>]"
  using assms
  by (simp add: match_vertex_def SearchPlanElement_node_def SRGraph_hasNode_def SRGraph_getNode_def
      addMatchedVertex_def isVertexMatchingCompatible_def)

text \<open>
  The node \<open>N\<close> with the predicate \<open>id=='A'&&type=='x'\<close> is bound to the SRG node \<open>A\<close> of type
  \<open>y\<close>, on which the predicate is false.
\<close>

theorem id_step_binds_unchecked_witness:
  "isVertexCompatible decimal_numerics no_functions (m_Graph typed_id_pattern) 0 node_A_srg 0 = Inr False \<and>
   match_vertex decimal_numerics no_functions typed_id_pattern node_A_srg
       (EdgeMatching_new\<lparr>m_iSearchPlanStep := 1\<rparr>) (SearchPlanElement_node 0 ''A'')
     = Inr [EdgeMatching_new
              \<lparr>m_vertexForwardMap := [(0, \<lparr>m_correspondence = Some 0, m_associationCount = 1\<rparr>)],
               m_vertexBackwardMap := [(0, \<lparr>m_correspondence = Some 0, m_associationCount = 1\<rparr>)],
               m_iSearchPlanStep := 1\<rparr>]"
proof -
  have a: "\<not> isPatternVertexMatched (EdgeMatching_new\<lparr>m_iSearchPlanStep := 1\<rparr> :: nat EdgeMatching) 0"
    by (simp add: isPatternVertexMatched_def EdgeMatching_new_def map_find_def)
  have b: "''A'' \<noteq> []" by simp
  have c: "map_find (m_NodeIDMap node_A_srg) ''A'' = Some 0"
    by (simp add: node_A_srg_def map_find_def)
  from id_step_binds_unchecked [OF a b c, of decimal_numerics no_functions typed_id_pattern]
  have "match_vertex decimal_numerics no_functions typed_id_pattern node_A_srg
       (EdgeMatching_new\<lparr>m_iSearchPlanStep := 1\<rparr>) (SearchPlanElement_node 0 ''A'')
     = Inr [EdgeMatching_new
              \<lparr>m_vertexForwardMap := [(0, \<lparr>m_correspondence = Some 0, m_associationCount = 1\<rparr>)],
               m_vertexBackwardMap := [(0, \<lparr>m_correspondence = Some 0, m_associationCount = 1\<rparr>)],
               m_iSearchPlanStep := 1\<rparr>]"
    by (simp add: EdgeMatching_new_def associate_def map_find_def map_assign_def map_insert_def int32_def)
  with typed_id_incompatible show ?thesis by (rule conjI)
qed
section \<open>Properties of the dataflow network\<close>

subsection \<open>Termination of the search\<close>

lemma queue_ancestors_search:
  "queue_ancestors pri visiting conns (idMap, search) = (idMap', search') \<Longrightarrow>
   \<exists>news. search' = news @ search \<and> length news \<le> length conns \<and>
          (\<forall>e\<in>set news. search_priority e = pri)"
proof (induction conns arbitrary: idMap search)
  case Nil
  then show ?case by simp
next
  case (Cons itIn rest)
  obtain p idMap1 where mi: "map_index idMap (m_componentName (m_source itIn)) None = (p, idMap1)"
    by (cases "map_index idMap (m_componentName (m_source itIn)) None")
  let ?s = "if p \<notin> set visiting then \<lparr>search_priority = pri, pComponent = p\<rparr> # search else search"
  from Cons.prems mi have "queue_ancestors pri visiting rest (idMap1, ?s) = (idMap', search')"
    by simp
  from Cons.IH [OF this] obtain news where
    n: "search' = news @ ?s" "length news \<le> length rest" "\<forall>e\<in>set news. search_priority e = pri"
    by blast
  show ?case
  proof (cases "p \<notin> set visiting")
    case True
    with n show ?thesis
      by (intro exI [of _ "news @ [\<lparr>search_priority = pri, pComponent = p\<rparr>]"]) auto
  next
    case False
    with n show ?thesis by (intro exI [of _ news]) auto
  qed
qed

lemma max_fanin_bound:
  "(k, cs) \<in> set m \<Longrightarrow> length cs \<le> foldr (\<lambda>it n. max (length (snd it)) n) m 0"
  by (induction m) auto

lemma foldr_max_insort:
  "foldr (\<lambda>it n. max (length (snd it)) n) (insort_key fst (k, []) m) 0
     = foldr (\<lambda>it n. max (length (snd it)) n) m 0"
  by (induction m) auto

lemma map_index_fanin:
  assumes "map_index m k [] = (cs, m')"
  shows "foldr (\<lambda>it n. max (length (snd it)) n) m' 0 = foldr (\<lambda>it n. max (length (snd it)) n) m 0 \<and>
         length cs \<le> foldr (\<lambda>it n. max (length (snd it)) n) m 0"
proof (cases "map_find m k")
  case None
  with assms show ?thesis
    by (auto simp: map_index_def map_insert_def map_find_def foldr_max_insort)
next
  case (Some v)
  then have "(k, v) \<in> set m" by (simp add: map_find_def map_of_SomeD)
  with Some assms show ?thesis
    by (auto simp: map_index_def dest: max_fanin_bound)
qed

lemma search_weight_pos: "0 < search_weight d n"
  by (cases n) simp_all

lemma sum_news:
  "\<forall>e\<in>set news. f e = (w::nat) \<Longrightarrow> sum_list (map f news) = length news * w"
  by (induction news) auto

lemma visit_decreases:
  assumes v: "visit net back rest visiting = Inr (net1, search1, visiting1)"
    and q: "\<not> search_priority back < 0"
  shows "search_size net1 search1 < search_size net (back # rest)"
proof -
  from v obtain c where c: "pComponent back = Some c"
    by (auto simp: visit_def split: option.splits)
  define pri where "pri = search_priority back"
  define net0 where "net0 = (if getEventPriority net c > pri then setEventPriority c pri net else net)"
  obtain inConns inMap where mi:
    "map_index (m_inConnectionMap net0) (component_name (components net0 c)) [] = (inConns, inMap)"
    by (cases "map_index (m_inConnectionMap net0) (component_name (components net0 c)) []")
  obtain idMap search where qa:
    "queue_ancestors (pri - 1) (set_insert visiting (Some c)) inConns
       (m_componentIDMap net0, back\<lparr>search_priority := - 1\<rparr> # rest) = (idMap, search)"
    by (cases "queue_ancestors (pri - 1) (set_insert visiting (Some c)) inConns
       (m_componentIDMap net0, back\<lparr>search_priority := - 1\<rparr> # rest)")
  from v c mi qa have r: "net1 = net0\<lparr>m_inConnectionMap := inMap, m_componentIDMap := idMap\<rparr>"
    "search1 = search"
    by (simp_all add: visit_def Let_def pri_def [symmetric] net0_def [symmetric])
  have in0: "m_inConnectionMap net0 = m_inConnectionMap net"
    by (simp add: net0_def setEventPriority_def)
  from map_index_fanin [OF mi] in0 r have
    f: "max_fanin net1 = max_fanin net" and l: "length inConns \<le> max_fanin net"
    by (simp_all add: max_fanin_def)
  from queue_ancestors_search [OF qa] obtain news where
    n: "search = news @ back\<lparr>search_priority := - 1\<rparr> # rest" "length news \<le> length inConns"
       "\<forall>e\<in>set news. search_priority e = pri - 1"
    by blast
  let ?d = "max_fanin net"
  let ?w = "\<lambda>e. search_weight ?d (nat (search_priority e + 1))"
  from q have s: "nat (search_priority back + 1) = Suc (nat (pri - 1 + 1))"
    by (simp add: pri_def)
  have "sum_list (map ?w news) = length news * search_weight ?d (nat (pri - 1 + 1))"
    using n(3) by (intro sum_news) simp
  also have "\<dots> \<le> ?d * search_weight ?d (nat (pri - 1 + 1))"
    using n(2) l by simp
  finally have "sum_list (map ?w news) + 1 < ?w back"
    unfolding s by simp
  then show ?thesis
    unfolding search_size_def r(2) n(1) f by simp
qed

termination search_loop
proof (relation "measure (\<lambda>(net, search, visiting). search_size net search)")
  show "wf (measure (\<lambda>(net, search, visiting). search_size net search))" by simp
next
  fix net and b :: AEPSearchInfo and rest visiting
  assume "search_priority b < 0"
  then show "((net, rest, set_erase visiting (pComponent b)), net, b # rest, visiting)
      \<in> measure (\<lambda>(net, search, visiting). search_size net search)"
    by (simp add: search_size_def search_weight_pos)
next
  fix net and b :: AEPSearchInfo and rest visiting x2 net1 y search1 visiting1
  assume "\<not> search_priority b < 0" "visit net b rest visiting = Inr x2"
    "(net1, y) = x2" "(search1, visiting1) = y"
  then show "((net1, search1, visiting1), net, b # rest, visiting)
      \<in> measure (\<lambda>(net, search, visiting). search_size net search)"
    using visit_decreases [of net b rest visiting net1 search1 visiting1] by auto
qed

subsection \<open>Termination of the loop over the components\<close>

lemma keys_map_insert: "fst ` set (map_insert m k d) \<subseteq> insert k (fst ` set m)"
  by (auto simp: map_insert_def set_insort_key)

lemma queue_ancestors_keys:
  "queue_ancestors pri visiting conns (idMap, search) = (idMap', search') \<Longrightarrow>
   fst ` set idMap' \<subseteq> fst ` set idMap \<union> (\<lambda>c. m_componentName (m_source c)) ` set conns"
proof (induction conns arbitrary: idMap search)
  case Nil
  then show ?case by simp
next
  case (Cons itIn rest)
  obtain p idMap1 where mi: "map_index idMap (m_componentName (m_source itIn)) None = (p, idMap1)"
    by (cases "map_index idMap (m_componentName (m_source itIn)) None")
  let ?s = "if p \<notin> set visiting then \<lparr>search_priority = pri, pComponent = p\<rparr> # search else search"
  from Cons.prems mi have "queue_ancestors pri visiting rest (idMap1, ?s) = (idMap', search')"
    by simp
  from Cons.IH [OF this] have
    a: "fst ` set idMap' \<subseteq> fst ` set idMap1 \<union> (\<lambda>c. m_componentName (m_source c)) ` set rest" .
  from mi have "fst ` set idMap1 \<subseteq> insert (m_componentName (m_source itIn)) (fst ` set idMap)"
    using keys_map_insert [of idMap "m_componentName (m_source itIn)" None]
    by (auto simp: map_index_def split: option.splits)
  with a show ?case by auto
qed

lemma map_index_sources:
  assumes "map_index m k [] = (cs, m')"
  shows "(\<Union>it\<in>set m'. f ` set (snd it)) = (\<Union>it\<in>set m. f ` set (snd it)) \<and>
         f ` set cs \<subseteq> (\<Union>it\<in>set m. f ` set (snd it))"
proof (cases "map_find m k")
  case None
  with assms have "cs = []" "set m' = insert (k, []) (set m)"
    by (auto simp: map_index_def map_insert_def map_find_def set_insort_key)
  then show ?thesis by simp
next
  case (Some v)
  then have "(k, v) \<in> set m" by (simp add: map_find_def map_of_SomeD)
  with Some assms show ?thesis
    by (force simp: map_index_def)
qed

lemma names_subset: "A \<subseteq> K \<union> I \<Longrightarrow> I \<subseteq> S \<Longrightarrow> A \<union> S \<subseteq> K \<union> S"
  by blast

lemma visit_names:
  assumes v: "visit net b rest visiting = Inr (net1, search1, visiting1)"
  shows "component_names net1 \<subseteq> component_names net"
proof -
  from v obtain c where c: "pComponent b = Some c"
    by (auto simp: visit_def split: option.splits)
  define pri where "pri = search_priority b"
  define net0 where "net0 = (if getEventPriority net c > pri then setEventPriority c pri net else net)"
  obtain inConns inMap where mi:
    "map_index (m_inConnectionMap net0) (component_name (components net0 c)) [] = (inConns, inMap)"
    by (cases "map_index (m_inConnectionMap net0) (component_name (components net0 c)) []")
  obtain idMap search where qa:
    "queue_ancestors (pri - 1) (set_insert visiting (Some c)) inConns
       (m_componentIDMap net0, b\<lparr>search_priority := - 1\<rparr> # rest) = (idMap, search)"
    by (cases "queue_ancestors (pri - 1) (set_insert visiting (Some c)) inConns
       (m_componentIDMap net0, b\<lparr>search_priority := - 1\<rparr> # rest)")
  from v c mi qa have r: "net1 = net0\<lparr>m_inConnectionMap := inMap, m_componentIDMap := idMap\<rparr>"
    by (simp_all add: visit_def Let_def pri_def [symmetric] net0_def [symmetric])
  have in0: "m_inConnectionMap net0 = m_inConnectionMap net" "m_componentIDMap net0 = m_componentIDMap net"
    by (simp_all add: net0_def setEventPriority_def)
  let ?f = "\<lambda>c. m_componentName (m_source c)"
  from map_index_sources [OF mi, of ?f] have
    a: "(\<Union>it\<in>set inMap. ?f ` set (snd it)) = (\<Union>it\<in>set (m_inConnectionMap net). ?f ` set (snd it))"
    and b: "?f ` set inConns \<subseteq> (\<Union>it\<in>set (m_inConnectionMap net). ?f ` set (snd it))"
    unfolding in0 by simp_all
  from queue_ancestors_keys [OF qa] have
    c: "fst ` set idMap \<subseteq> fst ` set (m_componentIDMap net) \<union> ?f ` set inConns"
    unfolding in0 .
  have "component_names net1 = fst ` set idMap \<union> (\<Union>it\<in>set inMap. ?f ` set (snd it))"
    by (simp add: component_names_def r)
  also have "\<dots> \<subseteq> component_names net"
    unfolding a component_names_def by (rule names_subset [OF c b])
  finally show ?thesis .
qed

lemma search_loop_names:
  "search_loop net search visiting = Inr net' \<Longrightarrow> component_names net' \<subseteq> component_names net"
proof (induction net search visiting rule: search_loop.induct)
  case (1 net visiting)
  then show ?case by simp
next
  case (2 net b rest visiting)
  show ?case
  proof (cases "search_priority b < 0")
    case True
    with 2 show ?thesis by simp
  next
    case False
    with "2.prems" obtain net1 search1 visiting1 where
      v: "visit net b rest visiting = Inr (net1, search1, visiting1)" and
      s: "search_loop net1 search1 visiting1 = Inr net'"
      by (auto split: sum.splits)
    from "2.IH"(2) [OF False v refl refl s] visit_names [OF v] show ?thesis by simp
  qed
qed

lemma search_from_sink_names:
  assumes "search_from_sink it net = Inr net'"
  shows "component_names net' \<subseteq> component_names net"
proof -
  obtain outConns outMap where mi: "map_index (m_outConnectionMap net) (fst it) [] = (outConns, outMap)"
    by (cases "map_index (m_outConnectionMap net) (fst it) []")
  have n: "component_names (net\<lparr>m_outConnectionMap := outMap\<rparr>) = component_names net"
    by (simp add: component_names_def)
  from assms mi show ?thesis
    using search_loop_names [of "net\<lparr>m_outConnectionMap := outMap\<rparr>" _ "[]" net'] n
    by (auto simp: search_from_sink_def Let_def simp del: search_loop.simps split: if_splits)
qed

lemma entries_after_head:
  assumes "entries_after m pos = it # behind"
  shows "fst it \<in> fst ` set m \<and> behind_pos pos (fst it)"
proof -
  from assms have "it \<in> set (entries_after m pos)" by simp
  then show ?thesis by (auto simp: entries_after_def)
qed

lemma finite_component_names: "finite (component_names net)"
  by (simp add: component_names_def)

lemma names_after_decreases:
  assumes e: "entries_after (m_componentIDMap net) pos = it # behind"
    and s: "search_from_sink it net = Inr net1"
  shows "card (names_after (Some (fst it)) net1) < card (names_after pos net)"
proof -
  from entries_after_head [OF e] have
    k: "fst it \<in> component_names net" "behind_pos pos (fst it)"
    by (auto simp: component_names_def)
  have "names_after (Some (fst it)) net1 \<subset> names_after pos net"
  proof
    show "names_after (Some (fst it)) net1 \<subseteq> names_after pos net"
      using search_from_sink_names [OF s] k(2)
      by (auto simp: names_after_def behind_pos_def split: option.splits)
    show "names_after (Some (fst it)) net1 \<noteq> names_after pos net"
      using k by (auto simp: names_after_def behind_pos_def)
  qed
  moreover have "finite (names_after pos net)"
    by (simp add: names_after_def finite_component_names)
  ultimately show ?thesis by (rule psubset_card_mono [rotated])
qed

termination sinks_loop
proof (relation "measure (\<lambda>(pos, net). card (names_after pos net))")
  show "wf (measure (\<lambda>(pos, net). card (names_after pos net)))" by simp
next
  fix pos :: "string option" and net it behind net1
  assume "entries_after (m_componentIDMap net) pos = it # behind" "search_from_sink it net = Inr net1"
  then show "((Some (fst it), net1), pos, net) \<in> measure (\<lambda>(pos, net). card (names_after pos net))"
    using names_after_decreases by simp
qed

subsection \<open>Lookups\<close>

lemma map_of_insort_key:
  "map_of m k = None \<Longrightarrow>
   map_of (insort_key fst (k, d) m) k' = (if k' = k then Some d else map_of m k')"
  by (induction m) auto

lemma map_index_lookup:
  assumes "map_index m k d = (v, m')"
  shows "v = (case map_find m k of None \<Rightarrow> d | Some x \<Rightarrow> x) \<and>
         (\<forall>k'. (case map_find m' k' of None \<Rightarrow> d | Some x \<Rightarrow> x)
               = (case map_find m k' of None \<Rightarrow> d | Some x \<Rightarrow> x))"
proof (cases "map_find m k")
  case None
  with assms have "v = d" "m' = insort_key fst (k, d) m"
    by (auto simp: map_index_def map_insert_def map_find_def)
  with None show ?thesis
    by (simp add: map_find_def map_of_insort_key)
next
  case (Some x)
  with assms show ?thesis by (auto simp: map_index_def)
qed

lemma map_index_present:
  "map_find m k = Some v \<Longrightarrow> map_index m k d = (v, m)"
  by (simp add: map_index_def)

lemma same_net_refl: "same_net net net"
  by (simp add: same_net_def)

lemma same_net_trans: "same_net a b \<Longrightarrow> same_net b c \<Longrightarrow> same_net a c"
  by (simp add: same_net_def)

lemma same_net_registered: "same_net net net' \<Longrightarrow> registered net' = registered net"
  by (auto simp: same_net_def registered_def)

lemma same_net_connected: "same_net net net' \<Longrightarrow> connected net' = connected net"
  by (auto simp: same_net_def connected_def fun_eq_iff)

lemma same_net_nm: "same_net net net' \<Longrightarrow> nm net' = nm net"
  by (auto simp: same_net_def)

lemma same_net_entry_name: "same_net net net' \<Longrightarrow> entry_name net' = entry_name net"
proof
  fix e
  assume "same_net net net'"
  then show "entry_name net' e = entry_name net e"
    by (cases "pComponent e") (simp_all add: entry_name_def same_net_def)
qed

lemma same_net_is_sink: "same_net net net' \<Longrightarrow> is_sink net' = is_sink net"
  by (auto simp: is_sink_def fun_eq_iff same_net_registered) (simp_all add: same_net_def)

lemma same_net_wf: "same_net net net' \<Longrightarrow> wf_net depth net \<Longrightarrow> wf_net depth net'"
  by (simp add: wf_net_def same_net_registered same_net_connected same_net_nm)

subsection \<open>One visit\<close>

lemma queue_ancestors_all:
  assumes "\<forall>c\<in>set conns. map_find idMap (m_componentName (m_source c)) \<noteq> None"
    and "\<forall>c\<in>set conns.
           (case map_find idMap (m_componentName (m_source c)) of None \<Rightarrow> None | Some p \<Rightarrow> p)
             \<notin> set visiting"
  shows "queue_ancestors q visiting conns (idMap, search) =
           (idMap,
            rev (map (\<lambda>c. \<lparr>search_priority = q,
                           pComponent = (case map_find idMap (m_componentName (m_source c)) of
                                           None \<Rightarrow> None | Some p \<Rightarrow> p)\<rparr>) conns) @ search)"
  using assms
proof (induction conns arbitrary: search)
  case Nil
  then show ?case by simp
next
  case (Cons itIn rest)
  from Cons.prems(1) obtain p where p: "map_find idMap (m_componentName (m_source itIn)) = Some p"
    by auto
  with Cons.prems(2) have nv: "p \<notin> set visiting" by simp
  from Cons.prems have r: "\<forall>c\<in>set rest. map_find idMap (m_componentName (m_source c)) \<noteq> None"
    "\<forall>c\<in>set rest.
           (case map_find idMap (m_componentName (m_source c)) of None \<Rightarrow> None | Some p \<Rightarrow> p)
             \<notin> set visiting"
    by simp_all
  show ?case
    using p nv Cons.IH [OF r] by (simp add: map_index_present)
qed

lemma set_insert_elements: "set (set_insert s k) = insert k (set s)"
  by (auto simp: set_insert_def set_insort_key)

lemma set_erase_elements: "set (set_erase s k) = set s - {k}"
  by (auto simp: set_erase_def)

lemma registered_name:
  "wf_net depth net \<Longrightarrow> registered net k = Some c \<Longrightarrow> nm net c = k"
  by (simp add: wf_net_def)

lemma connected_up:
  "wf_net depth net \<Longrightarrow> connected net u v \<Longrightarrow> registered net u \<noteq> None \<and> depth v < depth u"
  by (simp add: wf_net_def)

text \<open>
  The visit of a waiting entry: the component gets the smaller of its priority and that of
  the entry, the entry becomes a marker, and every source of an incoming connection is
  pushed with the next lower priority.
\<close>

lemma visit_basic:
  assumes names: "\<And>k c'. registered net k = Some c' \<Longrightarrow> nm net c' = k"
    and c: "pComponent b = Some c"
    and reg: "registered net (nm net c) = Some c"
    and ups: "\<And>u. connected net u (nm net c) \<Longrightarrow>
               registered net u \<noteq> None \<and> registered net u \<notin> set (set_insert visiting (Some c))"
  shows "\<exists>net1. visit net b rest visiting =
           Inr (net1,
                rev (map (\<lambda>cn. \<lparr>search_priority = search_priority b - 1,
                                 pComponent = registered net (m_componentName (m_source cn))\<rparr>)
                       (incoming net (nm net c)))
                  @ b\<lparr>search_priority := - 1\<rparr> # rest,
                set_insert visiting (Some c)) \<and>
           same_net net net1 \<and>
           (\<forall>k. prio net1 k = (if k = nm net c then min (prio net k) (search_priority b) else prio net k)) \<and>
           (\<forall>c'. getEventPriority net1 c' =
                 (if c' = c then min (getEventPriority net c) (search_priority b)
                  else getEventPriority net c'))"
proof -
  define v where "v = nm net c"
  define p where "p = search_priority b"
  define net0 where "net0 = (if getEventPriority net c > p then setEventPriority c p net else net)"
  define visiting1 where "visiting1 = set_insert visiting (Some c)"
  from reg have reg: "registered net v = Some c"
    by (simp add: v_def)
  have n0: "m_componentIDMap net0 = m_componentIDMap net" "m_inConnectionMap net0 = m_inConnectionMap net"
    "m_outConnectionMap net0 = m_outConnectionMap net"
    "\<And>c'. component_name (components net0 c') = component_name (components net c')"
    by (simp_all add: net0_def setEventPriority_def)
  have p0: "\<And>c'. getEventPriority net0 c' =
      (if c' = c then min (getEventPriority net c) p else getEventPriority net c')"
    by (simp add: net0_def setEventPriority_def getEventPriority_def)
  obtain inConns inMap where mi:
    "map_index (m_inConnectionMap net0) (component_name (components net0 c)) [] = (inConns, inMap)"
    by (cases "map_index (m_inConnectionMap net0) (component_name (components net0 c)) []")
  from map_index_lookup [OF mi] have
    ic: "inConns = incoming net v"
    and im: "\<And>k. (case map_find inMap k of None \<Rightarrow> [] | Some x \<Rightarrow> x) = incoming net k"
    by (simp_all add: n0 incoming_def v_def nm_def)
  have src: "\<forall>cn\<in>set inConns. map_find (m_componentIDMap net0) (m_componentName (m_source cn)) \<noteq> None"
  proof
    fix cn assume "cn \<in> set inConns"
    then have "connected net (m_componentName (m_source cn)) v"
      by (auto simp: connected_def ic)
    from ups [OF this [unfolded v_def]]
    show "map_find (m_componentIDMap net0) (m_componentName (m_source cn)) \<noteq> None"
      by (auto simp: registered_def n0 split: option.splits)
  qed
  have nvis: "\<forall>cn\<in>set inConns.
           (case map_find (m_componentIDMap net0) (m_componentName (m_source cn)) of
              None \<Rightarrow> None | Some p \<Rightarrow> p) \<notin> set visiting1"
  proof
    fix cn assume cn: "cn \<in> set inConns"
    let ?u = "m_componentName (m_source cn)"
    from cn have "connected net ?u v"
      by (auto simp: connected_def ic)
    from ups [OF this [unfolded v_def]]
    show "(case map_find (m_componentIDMap net0) ?u of None \<Rightarrow> None | Some p \<Rightarrow> p) \<notin> set visiting1"
      by (simp add: registered_def n0 visiting1_def)
  qed
  define net1 where "net1 = net0\<lparr>m_inConnectionMap := inMap, m_componentIDMap := m_componentIDMap net0\<rparr>"
  let ?news = "rev (map (\<lambda>cn. \<lparr>search_priority = p - 1,
                           pComponent = registered net (m_componentName (m_source cn))\<rparr>) inConns)"
  have qa: "queue_ancestors (p - 1) visiting1 inConns
              (m_componentIDMap net0, b\<lparr>search_priority := - 1\<rparr> # rest)
            = (m_componentIDMap net0, ?news @ b\<lparr>search_priority := - 1\<rparr> # rest)"
    unfolding queue_ancestors_all [OF src nvis] by (simp add: registered_def n0)
  have "visit net b rest visiting =
      (case map_index (m_inConnectionMap net0) (component_name (components net0 c)) [] of
         (inConns, inMap) \<Rightarrow>
           (case queue_ancestors (p - 1) visiting1 inConns
                   (m_componentIDMap net0, b\<lparr>search_priority := - 1\<rparr> # rest) of
              (idMap, search) \<Rightarrow>
                Inr (net0\<lparr>m_inConnectionMap := inMap, m_componentIDMap := idMap\<rparr>, search, visiting1)))"
    unfolding visit_def c net0_def p_def visiting1_def by (simp add: Let_def)
  also have "\<dots> = Inr (net1, ?news @ b\<lparr>search_priority := - 1\<rparr> # rest, visiting1)"
    by (simp only: mi qa prod.case net1_def)
  finally have res: "visit net b rest visiting =
      Inr (net1, ?news @ b\<lparr>search_priority := - 1\<rparr> # rest, visiting1)" .
  have same: "same_net net net1"
    by (simp add: net1_def same_net_def n0 nm_def incoming_def im [unfolded incoming_def] outgoing_def)
  have r1: "registered net1 = registered net"
    by (rule same_net_registered [OF same])
  have pr: "prio net1 k = (if k = v then min (prio net k) p else prio net k)" for k
  proof (cases "registered net k")
    case None
    with reg have "k \<noteq> v" by auto
    with None show ?thesis by (simp add: prio_def r1)
  next
    case (Some ck)
    have g: "getEventPriority net1 ck = (if ck = c then min (getEventPriority net c) p else getEventPriority net ck)"
      using p0 [of ck] by (simp add: getEventPriority_def net1_def)
    show ?thesis
    proof (cases "k = v")
      case True
      with Some reg have "ck = c" by simp
      with True Some g show ?thesis by (simp add: prio_def r1)
    next
      case False
      have "ck \<noteq> c"
      proof
        assume "ck = c"
        with names [OF Some] have "k = v" by (simp add: v_def)
        with False show False ..
      qed
      with False Some g show ?thesis by (simp add: prio_def r1)
    qed
  qed
  have gp: "getEventPriority net1 c' =
      (if c' = c then min (getEventPriority net c) p else getEventPriority net c')" for c'
    using p0 [of c'] by (simp add: getEventPriority_def net1_def)
  show ?thesis
    using res same pr gp unfolding v_def p_def visiting1_def ic
    by (intro exI [of _ net1] conjI allI)
qed

lemma visit_result:
  assumes wf: "wf_net depth net"
    and eo: "entries_ok depth net (b # rest)"
    and ord: "ordered depth net (b # rest)"
    and vis: "visiting_ok (b # rest) visiting"
    and q: "\<not> search_priority b < 0"
    and c: "pComponent b = Some c"
  shows "\<exists>net1. visit net b rest visiting =
           Inr (net1,
                rev (map (\<lambda>cn. \<lparr>search_priority = search_priority b - 1,
                                 pComponent = registered net (m_componentName (m_source cn))\<rparr>)
                       (incoming net (nm net c)))
                  @ b\<lparr>search_priority := - 1\<rparr> # rest,
                set_insert visiting (Some c)) \<and>
           same_net net net1 \<and>
           (\<forall>k. prio net1 k = (if k = nm net c then min (prio net k) (search_priority b) else prio net k))"
proof -
  from eo c have reg: "registered net (nm net c) = Some c"
    by (auto simp: entries_ok_def)
  have ups: "registered net u \<noteq> None \<and> registered net u \<notin> set (set_insert visiting (Some c))"
    if con: "connected net u (nm net c)" for u
  proof -
    from connected_up [OF wf con] obtain cu where
      cu: "registered net u = Some cu" and d: "depth (nm net c) < depth u"
      by auto
    from registered_name [OF wf cu] have ncu: "nm net cu = u" .
    have "Some cu \<notin> set (set_insert visiting (Some c))"
    proof
      assume "Some cu \<in> set (set_insert visiting (Some c))"
      then consider "cu = c" | "Some cu \<in> set visiting"
        by (auto simp: set_insert_elements)
      then show False
      proof cases
        case 1
        with ncu d show False by simp
      next
        case 2
        with vis q obtain e' where e': "e' \<in> set rest" "search_priority e' < 0" "pComponent e' = Some cu"
          by (auto simp: visiting_ok_def)
        with ord have "depth (entry_name net e') < depth (entry_name net b)" by simp
        with e' c ncu d show False by (simp add: entry_name_def)
      qed
    qed
    with cu show ?thesis by simp
  qed
  from visit_basic [OF registered_name [OF wf] c reg ups, of rest] show ?thesis by blast
qed

lemma same_net_ordered:
  "same_net net net' \<Longrightarrow> ordered depth net' search = ordered depth net search"
  by (induction search) (simp_all add: same_net_entry_name)

lemma ordered_news:
  assumes "\<forall>e\<in>set news. \<forall>e'\<in>set below.
             search_priority e' < 0 \<longrightarrow> depth (entry_name net e') < depth (entry_name net e)"
    and "\<forall>e\<in>set news. \<not> search_priority e < 0"
    and "ordered depth net below"
  shows "ordered depth net (news @ below)"
  using assms by (induction news) auto

lemma visit_step:
  assumes wf: "wf_net depth net"
    and inv: "search_inv depth net (b # rest) visiting R"
    and q: "\<not> search_priority b < 0"
  shows "\<exists>net1 search1 visiting1.
           visit net b rest visiting = Inr (net1, search1, visiting1) \<and>
           same_net net net1 \<and>
           search_inv depth net1 search1 visiting1 (insert (entry_name net b) R) \<and>
           set rest \<subseteq> set search1"
proof -
  from inv have eo: "entries_ok depth net (b # rest)" and ord: "ordered depth net (b # rest)"
    and vis: "visiting_ok (b # rest) visiting" and ed: "edges_ok net (b # rest) R"
    and bd: "\<forall>k. prio net k \<le> 255"
    by (simp_all add: search_inv_def)
  from eo obtain c where c: "pComponent b = Some c" and reg: "registered net (nm net c) = Some c"
    by (auto simp: entries_ok_def)
  define v where "v = nm net c"
  define p where "p = search_priority b"
  have bv: "entry_name net b = v" by (simp add: entry_name_def c v_def)
  from eo q bv have p: "0 \<le> p" "p \<le> 255" "255 - int (depth v) \<le> p"
    by (auto simp: entries_ok_def p_def)
  define news where "news = rev (map (\<lambda>cn. \<lparr>search_priority = p - 1,
                                 pComponent = registered net (m_componentName (m_source cn))\<rparr>)
                       (incoming net v))"
  define m where "m = b\<lparr>search_priority := - 1\<rparr>"
  from visit_result [OF wf eo ord vis q c] obtain net1 where
    res: "visit net b rest visiting = Inr (net1, news @ m # rest, set_insert visiting (Some c))"
    and same: "same_net net net1"
    and pr: "\<And>k. prio net1 k = (if k = v then min (prio net k) p else prio net k)"
    unfolding v_def p_def news_def m_def by blast
  note s = same_net_registered [OF same] same_net_connected [OF same] same_net_nm [OF same]
    same_net_entry_name [OF same]
  have mname: "entry_name net m = v" "pComponent m = Some c" "search_priority m = - 1"
    by (simp_all add: m_def entry_name_def c v_def)
  have up: "\<exists>e\<in>set news. pComponent e = registered net u \<and> search_priority e = p - 1"
    if "connected net u v" for u
    using that by (auto simp: connected_def news_def)
  have nw: "\<exists>u cu. connected net u v \<and> pComponent e = Some cu \<and> registered net u = Some cu \<and>
              entry_name net e = u \<and> search_priority e = p - 1 \<and> depth v < depth u \<and> depth u \<le> 255"
    if "e \<in> set news" for e
  proof -
    from that obtain cn where cn: "cn \<in> set (incoming net v)"
      and e: "e = \<lparr>search_priority = p - 1, pComponent = registered net (m_componentName (m_source cn))\<rparr>"
      by (auto simp: news_def)
    let ?u = "m_componentName (m_source cn)"
    from cn have con: "connected net ?u v" by (auto simp: connected_def)
    from connected_up [OF wf con] obtain cu where cu: "registered net ?u = Some cu" and d: "depth v < depth ?u"
      by auto
    from registered_name [OF wf cu] have "nm net cu = ?u" .
    moreover from wf cu have "depth ?u \<le> 255" by (simp add: wf_net_def)
    ultimately show ?thesis
      using con cu d e by (intro exI [of _ ?u] exI [of _ cu]) (simp add: entry_name_def)
  qed
  have p1: "0 \<le> p - 1" if "e \<in> set news" for e
    using nw [OF that] p by auto
  have eo1: "entries_ok depth net1 (news @ m # rest)"
    unfolding entries_ok_def
  proof
    fix e assume "e \<in> set (news @ m # rest)"
    then consider "e \<in> set news" | "e = m" | "e \<in> set rest" by auto
    then show "(\<exists>c. pComponent e = Some c \<and> registered net1 (nm net1 c) = Some c) \<and>
        search_priority e \<le> 255 \<and>
        (search_priority e < 0 \<or> 255 - int (depth (entry_name net1 e)) \<le> search_priority e)"
    proof cases
      case 1
      from nw [OF 1] obtain u cu where u: "pComponent e = Some cu" "registered net u = Some cu"
        "entry_name net e = u" "search_priority e = p - 1" "depth v < depth u"
        by blast
      from registered_name [OF wf u(2)] u p show ?thesis
        by (simp add: s)
    next
      case 2
      with reg mname show ?thesis by (simp add: s)
    next
      case 3
      with eo show ?thesis by (simp add: entries_ok_def s)
    qed
  qed
  have ord1: "ordered depth net1 (news @ m # rest)"
    unfolding same_net_ordered [OF same]
  proof (rule ordered_news)
    show "\<forall>e\<in>set news. \<not> search_priority e < 0"
      using p1 nw by fastforce
    show "ordered depth net (m # rest)"
      using ord bv mname by simp
    show "\<forall>e\<in>set news. \<forall>e'\<in>set (m # rest).
             search_priority e' < 0 \<longrightarrow> depth (entry_name net e') < depth (entry_name net e)"
    proof (intro ballI impI)
      fix e e' assume e: "e \<in> set news" and e': "e' \<in> set (m # rest)" "search_priority e' < 0"
      from nw [OF e] have d: "depth v < depth (entry_name net e)" by auto
      from e' have "depth (entry_name net e') \<le> depth v"
      proof (cases "e' = m")
        case True
        with mname show ?thesis by simp
      next
        case False
        with e' ord bv show ?thesis by auto
      qed
      with d show "depth (entry_name net e') < depth (entry_name net e)" by simp
    qed
  qed
  have vis1: "visiting_ok (news @ m # rest) (set_insert visiting (Some c))"
  proof -
    have "{e \<in> set (news @ m # rest). search_priority e < 0}
        = insert m {e \<in> set rest. search_priority e < 0}"
      using p1 nw mname by fastforce
    moreover have "{e \<in> set (b # rest). search_priority e < 0} = {e \<in> set rest. search_priority e < 0}"
      using q by auto
    ultimately show ?thesis
      using vis mname by (simp add: visiting_ok_def set_insert_elements)
  qed
  have vu: "u \<noteq> v" if "connected net u v" for u
    using connected_up [OF wf that] by auto
  have ed1: "edges_ok net1 (news @ m # rest) (insert (entry_name net b) R)"
    unfolding edges_ok_def s bv
  proof (intro allI impI)
    fix u w assume a: "connected net u w \<and> registered net w \<noteq> None"
    let ?goal = "prio net1 u < prio net1 w \<or>
        (\<exists>e\<in>set (news @ m # rest). pComponent e = registered net u \<and> 0 \<le> search_priority e \<and>
           search_priority e < prio net1 w) \<or>
        prio net1 w = 255 \<and> w \<notin> insert v R"
    from ed a have old: "prio net u < prio net w \<or>
        (\<exists>e\<in>set (b # rest). pComponent e = registered net u \<and> 0 \<le> search_priority e \<and>
           search_priority e < prio net w) \<or>
        prio net w = 255 \<and> w \<notin> R"
      by (simp add: edges_ok_def)
    have le: "prio net1 u \<le> prio net u" by (simp add: pr)
    show ?goal
    proof (cases "w = v")
      case True
      with a have uv: "connected net u v" by simp
      from vu [OF uv] have pu: "prio net1 u = prio net u" by (simp add: pr)
      from up [OF uv] obtain e where e: "e \<in> set news" "pComponent e = registered net u"
        "search_priority e = p - 1"
        by blast
      show ?thesis
      proof (cases "p \<le> prio net v")
        case True
        then have "prio net1 v = p" by (simp add: pr)
        with e p1 [OF e(1)] \<open>w = v\<close> show ?thesis by auto
      next
        case False
        then have pv: "prio net1 v = prio net v" "prio net v < p" by (simp_all add: pr)
        from old \<open>w = v\<close> consider "prio net u < prio net v"
          | e' where "e' \<in> set (b # rest)" "pComponent e' = registered net u" "0 \<le> search_priority e'"
              "search_priority e' < prio net v"
          | "prio net v = 255"
          by auto
        then show ?thesis
        proof cases
          case 1
          with pu pv \<open>w = v\<close> show ?thesis by simp
        next
          case 2
          have "e' \<noteq> b"
          proof
            assume "e' = b"
            with 2 c have "registered net u = Some c" by simp
            from registered_name [OF wf this] vu [OF uv] show False by (simp add: v_def)
          qed
          with 2 have "e' \<in> set (news @ m # rest)" by simp
          with 2 pv \<open>w = v\<close> show ?thesis by auto
        next
          case 3
          with pv p show ?thesis by simp
        qed
      qed
    next
      case False
      then have pw: "prio net1 w = prio net w" by (simp add: pr)
      from old consider "prio net u < prio net w"
        | e' where "e' \<in> set (b # rest)" "pComponent e' = registered net u" "0 \<le> search_priority e'"
            "search_priority e' < prio net w"
        | "prio net w = 255" "w \<notin> R"
        by auto
      then show ?thesis
      proof cases
        case 1
        with le pw show ?thesis by simp
      next
        case 2
        show ?thesis
        proof (cases "e' = b")
          case True
          with 2 c have "registered net u = Some c" by simp
          from registered_name [OF wf this] have "u = v" by (simp add: v_def)
          then have "prio net1 u \<le> p" by (simp add: pr)
          with 2 True pw show ?thesis by (simp add: p_def)
        next
          case False
          with 2 have "e' \<in> set (news @ m # rest)" by simp
          with 2 pw show ?thesis by auto
        qed
      next
        case 3
        with pw False show ?thesis by simp
      qed
    qed
  qed
  have bd1: "\<forall>k. prio net1 k \<le> 255"
    using bd p by (simp add: pr)
  from eo1 ord1 vis1 ed1 bd1 have
    "search_inv depth net1 (news @ m # rest) (set_insert visiting (Some c)) (insert (entry_name net b) R)"
    by (simp add: search_inv_def)
  with res same show ?thesis by auto
qed

lemma marker_step:
  assumes inv: "search_inv depth net (b # rest) visiting R"
    and q: "search_priority b < 0"
  shows "search_inv depth net rest (set_erase visiting (pComponent b)) R"
proof -
  from inv have eo: "entries_ok depth net (b # rest)" and ord: "ordered depth net (b # rest)"
    and vis: "visiting_ok (b # rest) visiting" and ed: "edges_ok net (b # rest) R"
    and bd: "\<forall>k. prio net k \<le> 255"
    by (simp_all add: search_inv_def)
  have other: "pComponent e' \<noteq> pComponent b" if "e' \<in> set rest" "search_priority e' < 0" for e'
  proof
    assume "pComponent e' = pComponent b"
    then have "entry_name net e' = entry_name net b" by (simp add: entry_name_def)
    with ord that show False by auto
  qed
  have "{e \<in> set (b # rest). search_priority e < 0} = insert b {e \<in> set rest. search_priority e < 0}"
    using q by auto
  with vis other have "visiting_ok rest (set_erase visiting (pComponent b))"
    by (auto simp: visiting_ok_def set_erase_elements)
  moreover from eo have "entries_ok depth net rest" by (simp add: entries_ok_def)
  moreover from ord have "ordered depth net rest" by simp
  moreover have "edges_ok net rest R"
    unfolding edges_ok_def
  proof (intro allI impI)
    fix u w assume a: "connected net u w \<and> registered net w \<noteq> None"
    with ed have "prio net u < prio net w \<or>
        (\<exists>e\<in>set (b # rest). pComponent e = registered net u \<and> 0 \<le> search_priority e \<and>
           search_priority e < prio net w) \<or>
        prio net w = 255 \<and> w \<notin> R"
      by (simp add: edges_ok_def)
    with q show "prio net u < prio net w \<or>
        (\<exists>e\<in>set rest. pComponent e = registered net u \<and> 0 \<le> search_priority e \<and>
           search_priority e < prio net w) \<or>
        prio net w = 255 \<and> w \<notin> R"
      by auto
  qed
  ultimately show ?thesis using bd by (simp add: search_inv_def)
qed

text \<open>
  The search ends without an error; afterwards every connection is in order or leads to a
  component that no search has visited yet.
\<close>

lemma search_loop_correct:
  "wf_net depth net \<Longrightarrow> search_inv depth net search visiting R \<Longrightarrow>
   \<exists>net' R'. search_loop net search visiting = Inr net' \<and> same_net net net' \<and>
      edges_ok net' [] R' \<and> (\<forall>k. prio net' k \<le> 255) \<and> R \<union> pending_names net search \<subseteq> R'"
proof (induction net search visiting arbitrary: R rule: search_loop.induct)
  case (1 net visiting)
  then show ?case
    by (intro exI [of _ net] exI [of _ R]) (simp add: same_net_refl search_inv_def pending_names_def)
next
  case (2 net b rest visiting)
  show ?case
  proof (cases "search_priority b < 0")
    case True
    from marker_step [OF "2.prems"(2) True] have
      "search_inv depth net rest (set_erase visiting (pComponent b)) R" .
    from "2.IH"(1) [OF True "2.prems"(1) this] obtain net' R' where
      r: "search_loop net rest (set_erase visiting (pComponent b)) = Inr net'" "same_net net net'"
         "edges_ok net' [] R'" "\<forall>k. prio net' k \<le> 255" "R \<union> pending_names net rest \<subseteq> R'"
      by blast
    from True have "pending_names net (b # rest) = pending_names net rest"
      by (auto simp: pending_names_def)
    with r True show ?thesis
      by (intro exI [of _ net'] exI [of _ R']) simp
  next
    case False
    from visit_step [OF "2.prems" False] obtain net1 search1 visiting1 where
      v: "visit net b rest visiting = Inr (net1, search1, visiting1)" and
      same: "same_net net net1" and
      inv1: "search_inv depth net1 search1 visiting1 (insert (entry_name net b) R)" and
      sub: "set rest \<subseteq> set search1"
      by blast
    from same_net_wf [OF same "2.prems"(1)] have wf1: "wf_net depth net1" .
    from "2.IH"(2) [OF False v refl refl wf1 inv1] obtain net' R' where
      r: "search_loop net1 search1 visiting1 = Inr net'" "same_net net1 net'"
         "edges_ok net' [] R'" "\<forall>k. prio net' k \<le> 255"
         "insert (entry_name net b) R \<union> pending_names net1 search1 \<subseteq> R'"
      by blast
    have "pending_names net (b # rest) \<subseteq> insert (entry_name net b) (pending_names net1 search1)"
      using sub by (auto simp: pending_names_def same_net_entry_name [OF same])
    with r(5) have "R \<union> pending_names net (b # rest) \<subseteq> R'" by blast
    with r False v same_net_trans [OF same r(2)] show ?thesis
      by (intro exI [of _ net'] exI [of _ R']) simp
  qed
qed

subsection \<open>The loops over the components\<close>

lemma clear_priorities_ok:
  "\<forall>it\<in>set es. snd it \<noteq> None \<Longrightarrow>
   \<exists>net'. clear_priorities es net = Inr net' \<and>
      m_componentIDMap net' = m_componentIDMap net \<and>
      m_inConnectionMap net' = m_inConnectionMap net \<and>
      m_outConnectionMap net' = m_outConnectionMap net \<and>
      (\<forall>c. component_name (components net' c) = component_name (components net c)) \<and>
      (\<forall>c. getEventPriority net' c = (if Some c \<in> snd ` set es then 255 else getEventPriority net c))"
proof (induction es arbitrary: net)
  case Nil
  then show ?case by simp
next
  case (Cons it rest)
  from Cons.prems obtain c where c: "snd it = Some c" by auto
  let ?net = "setEventPriority c DFN_MAX_PATHLENGTH net"
  from Cons.prems have "\<forall>it\<in>set rest. snd it \<noteq> None" by simp
  from Cons.IH [OF this, of ?net] obtain net' where
    r: "clear_priorities rest ?net = Inr net'"
       "m_componentIDMap net' = m_componentIDMap ?net"
       "m_inConnectionMap net' = m_inConnectionMap ?net"
       "m_outConnectionMap net' = m_outConnectionMap ?net"
       "\<forall>c. component_name (components net' c) = component_name (components ?net c)"
       "\<forall>c'. getEventPriority net' c' = (if Some c' \<in> snd ` set rest then 255 else getEventPriority ?net c')"
    by blast
  have "\<forall>c'. getEventPriority net' c' =
      (if Some c' \<in> snd ` set (it # rest) then 255 else getEventPriority net c')"
    using r(6) c by (auto simp: setEventPriority_def getEventPriority_def DFN_MAX_PATHLENGTH_def)
  with r c show ?case
    by (intro exI [of _ net']) (simp add: setEventPriority_def)
qed

lemma sorted_keys_lookup:
  fixes m :: "('k::linorder \<times> 'v) list"
  assumes "sorted_wrt (<) (map fst m)"
  shows "(map_find m k = Some p) = ((k, p) \<in> set m)"
proof -
  from assms have "distinct (map fst m)" by (simp add: strict_sorted_iff)
  then show ?thesis by (simp add: map_find_def)
qed

lemma registered_entry:
  assumes cr: "components_registered net" and it: "it \<in> set (m_componentIDMap net)"
  shows "\<exists>c. snd it = Some c \<and> registered net (fst it) = Some c \<and> nm net c = fst it"
proof -
  from cr it obtain c where c: "snd it = Some c" "component_name (components net c) = fst it"
    by (auto simp: components_registered_def list_all_iff split: option.splits)
  from cr have "sorted_wrt (<) (map fst (m_componentIDMap net))"
    by (simp add: components_registered_def)
  from sorted_keys_lookup [OF this, of "fst it" "snd it"] it
  have "map_find (m_componentIDMap net) (fst it) = Some (snd it)" by simp
  with c show ?thesis by (simp add: registered_def nm_def)
qed

lemma registered_key:
  assumes "registered net k \<noteq> None"
  shows "\<exists>p. (k, p) \<in> set (m_componentIDMap net)"
proof (cases "map_of (m_componentIDMap net) k")
  case None
  with assms show ?thesis by (simp add: registered_def map_find_def)
next
  case (Some p)
  from map_of_SomeD [OF Some] show ?thesis by blast
qed

lemma incoming_entry:
  assumes "c \<in> set (incoming net v)"
  shows "\<exists>cs. (v, cs) \<in> set (m_inConnectionMap net) \<and> c \<in> set cs"
proof (cases "map_of (m_inConnectionMap net) v")
  case None
  with assms show ?thesis by (simp add: incoming_def map_find_def)
next
  case (Some cs)
  with assms have "c \<in> set cs" by (simp add: incoming_def map_find_def)
  with map_of_SomeD [OF Some] show ?thesis by blast
qed

text \<open>The conditions on the maps give what the search relies on.\<close>

lemma wf_net_intro:
  assumes cr: "components_registered net" and sr: "sources_registered net"
    and lv: "levels depth 255 net"
  shows "wf_net depth net"
proof -
  have a: "nm net c = k" if r: "registered net k = Some c" for k c
  proof -
    from r obtain p where p: "(k, p) \<in> set (m_componentIDMap net)"
      using registered_key [of net k] by auto
    from registered_entry [OF cr p] r show ?thesis by auto
  qed
  have b: "registered net u \<noteq> None \<and> depth v < depth u" if "connected net u v" for u v
  proof -
    from that obtain c where c: "c \<in> set (incoming net v)" "m_componentName (m_source c) = u"
      by (auto simp: connected_def)
    from incoming_entry [OF c(1)] obtain cs where cs: "(v, cs) \<in> set (m_inConnectionMap net)" "c \<in> set cs"
      by blast
    from sr cs c(2) have "registered net u \<noteq> None"
      by (auto simp: sources_registered_def list_all_iff)
    moreover from lv cs c(2) have "depth v < depth u"
      by (auto simp: levels_def list_all_iff)
    ultimately show ?thesis ..
  qed
  have c: "depth k \<le> 255" if "registered net k \<noteq> None" for k
  proof -
    from that obtain p where "(k, p) \<in> set (m_componentIDMap net)"
      using registered_key [of net k] by auto
    with lv show ?thesis by (auto simp: levels_def list_all_iff)
  qed
  from a b c show ?thesis unfolding wf_net_def by blast
qed

lemma same_net_components_registered:
  "same_net net net' \<Longrightarrow> components_registered net \<Longrightarrow> components_registered net'"
  by (auto simp: components_registered_def same_net_def nm_def list_all_iff split: option.splits)

lemma same_net_prio_edges:
  assumes "same_net net net'" and "components net' = components net"
  shows "prio net' = prio net" and "edges_ok net' search R = edges_ok net search R"
proof -
  have g: "getEventPriority net' = getEventPriority net"
    by (simp add: fun_eq_iff getEventPriority_def assms(2))
  show p: "prio net' = prio net"
    by (simp add: prio_def fun_eq_iff same_net_registered [OF assms(1)] g split: option.splits)
  show "edges_ok net' search R = edges_ok net search R"
    by (simp add: edges_ok_def p same_net_registered [OF assms(1)] same_net_connected [OF assms(1)])
qed

lemma entries_after_filter: "entries_after m pos = filter (\<lambda>it. behind_pos pos (fst it)) m"
  by (simp add: entries_after_def)

lemma entries_after_least:
  assumes s: "sorted_wrt (<) (map fst m)" and e: "entries_after m pos = it # behind"
  shows "it \<in> set m \<and> behind_pos pos (fst it) \<and>
         (\<forall>x\<in>set m. behind_pos pos (fst x) \<longrightarrow> fst it \<le> fst x)"
proof -
  from s have "sorted_wrt (\<lambda>x y. fst x < fst y) m" by (simp add: sorted_wrt_map)
  then have "sorted_wrt (\<lambda>x y. fst x < fst y) (entries_after m pos)"
    unfolding entries_after_filter by (rule sorted_wrt_filter)
  with e have l: "\<forall>x\<in>set behind. fst it < fst x" by simp
  from e have m: "set (entries_after m pos) = insert it (set behind)" by simp
  then have "it \<in> set m \<and> behind_pos pos (fst it)"
    unfolding entries_after_filter by auto
  moreover have "\<forall>x\<in>set m. behind_pos pos (fst x) \<longrightarrow> fst it \<le> fst x"
  proof (intro ballI impI)
    fix x assume "x \<in> set m" "behind_pos pos (fst x)"
    then have "x \<in> set (entries_after m pos)" by (simp add: entries_after_filter)
    with m l show "fst it \<le> fst x" by auto
  qed
  ultimately show ?thesis by simp
qed

lemma entries_after_none:
  assumes "entries_after m pos = []" and "x \<in> set m"
  shows "\<not> behind_pos pos (fst x)"
  using assms by (auto simp: entries_after_filter filter_empty_conv)

lemma edges_ok_more: "edges_ok net search R \<Longrightarrow> set search \<subseteq> set search' \<Longrightarrow> edges_ok net search' R"
  unfolding edges_ok_def by blast

lemma edges_ok_grow: "edges_ok net search R' \<Longrightarrow> R \<subseteq> R' \<Longrightarrow> edges_ok net search R"
  unfolding edges_ok_def by blast

text \<open>The body of the second loop keeps the invariant and takes a sink into \<open>R\<close>.\<close>

lemma search_from_sink_correct:
  assumes wf: "wf_net depth net" and cr: "components_registered net"
    and it: "it \<in> set (m_componentIDMap net)"
    and ed: "edges_ok net [] R" and bd: "\<forall>k. prio net k \<le> 255"
  shows "\<exists>net' R'. search_from_sink it net = Inr net' \<and> same_net net net' \<and>
           edges_ok net' [] R' \<and> (\<forall>k. prio net' k \<le> 255) \<and> R \<subseteq> R' \<and>
           (is_sink net (fst it) \<longrightarrow> fst it \<in> R')"
proof -
  obtain outConns outMap where mi: "map_index (m_outConnectionMap net) (fst it) [] = (outConns, outMap)"
    by (cases "map_index (m_outConnectionMap net) (fst it) []")
  define net1 where "net1 = net\<lparr>m_outConnectionMap := outMap\<rparr>"
  from map_index_lookup [OF mi] have oc: "outConns = outgoing net (fst it)"
    and om: "\<And>k. (case map_find outMap k of None \<Rightarrow> [] | Some x \<Rightarrow> x) = outgoing net k"
    by (simp_all add: outgoing_def)
  have same: "same_net net net1"
    by (simp add: same_net_def net1_def nm_def incoming_def outgoing_def om [unfolded outgoing_def])
  have comp: "components net1 = components net" by (simp add: net1_def)
  note pe = same_net_prio_edges [OF same comp]
  from registered_entry [OF cr it] obtain c where
    c: "snd it = Some c" "registered net (fst it) = Some c" "nm net c = fst it"
    by blast
  have sf: "search_from_sink it net =
      (if outConns = []
       then search_loop net1 [\<lparr>search_priority = DFN_MAX_PATHLENGTH, pComponent = snd it\<rparr>] []
       else Inr net1)"
    by (simp add: search_from_sink_def mi Let_def net1_def del: search_loop.simps)
  show ?thesis
  proof (cases "outConns = []")
    case False
    with oc have "\<not> is_sink net (fst it)" by (simp add: is_sink_def)
    with False sf same ed bd show ?thesis
      by (intro exI [of _ net1] exI [of _ R]) (simp add: pe)
  next
    case True
    let ?e = "\<lparr>search_priority = DFN_MAX_PATHLENGTH, pComponent = snd it\<rparr>"
    have "entries_ok depth net1 [?e]"
      using c by (simp add: entries_ok_def DFN_MAX_PATHLENGTH_def same_net_registered [OF same]
          same_net_nm [OF same])
    moreover have "ordered depth net1 [?e]" by simp
    moreover have "visiting_ok [?e] []"
      by (simp add: visiting_ok_def DFN_MAX_PATHLENGTH_def)
    moreover have "edges_ok net1 [?e] R"
      using edges_ok_more [OF ed, of "[?e]"] by (simp add: pe)
    ultimately have inv: "search_inv depth net1 [?e] [] R"
      using bd by (simp add: search_inv_def pe)
    from search_loop_correct [OF same_net_wf [OF same wf] inv] obtain net' R' where
      r: "search_loop net1 [?e] [] = Inr net'" "same_net net1 net'" "edges_ok net' [] R'"
         "\<forall>k. prio net' k \<le> 255" "R \<union> pending_names net1 [?e] \<subseteq> R'"
      by blast
    have "pending_names net1 [?e] = {fst it}"
      using c by (auto simp: pending_names_def DFN_MAX_PATHLENGTH_def entry_name_def same_net_nm [OF same])
    with r(5) have "R \<subseteq> R'" "fst it \<in> R'" by auto
    with True sf r same_net_trans [OF same r(2)] show ?thesis
      by (intro exI [of _ net'] exI [of _ R']) simp
  qed
qed

lemma sinks_loop_correct:
  "wf_net depth net \<Longrightarrow> components_registered net \<Longrightarrow> edges_ok net [] R \<Longrightarrow>
   \<forall>k. prio net k \<le> 255 \<Longrightarrow>
   \<forall>k. is_sink net k \<and> \<not> behind_pos pos k \<longrightarrow> k \<in> R \<Longrightarrow>
   \<exists>net' R'. sinks_loop pos net = Inr net' \<and> same_net net net' \<and> edges_ok net' [] R' \<and>
      (\<forall>k. prio net' k \<le> 255) \<and> (\<forall>k. is_sink net k \<longrightarrow> k \<in> R')"
proof (induction pos net arbitrary: R rule: sinks_loop.induct)
  case (1 pos net)
  note wf = "1.prems"(1) and cr = "1.prems"(2) and ed = "1.prems"(3) and bd = "1.prems"(4)
    and settled = "1.prems"(5)
  show ?case
  proof (cases "entries_after (m_componentIDMap net) pos")
    case Nil
    have "k \<in> R" if "is_sink net k" for k
    proof -
      from that obtain p where "(k, p) \<in> set (m_componentIDMap net)"
        using registered_key [of net k] by (auto simp: is_sink_def)
      from entries_after_none [OF Nil this] that settled show ?thesis by simp
    qed
    with Nil ed bd show ?thesis
      by (intro exI [of _ net] exI [of _ R]) (simp add: sinks_loop.simps [of pos net] same_net_refl)
  next
    case (Cons it behind)
    from cr have srt: "sorted_wrt (<) (map fst (m_componentIDMap net))"
      by (simp add: components_registered_def)
    from entries_after_least [OF srt Cons] have
      it: "it \<in> set (m_componentIDMap net)" and bh: "behind_pos pos (fst it)"
      and least: "\<forall>x\<in>set (m_componentIDMap net). behind_pos pos (fst x) \<longrightarrow> fst it \<le> fst x"
      by simp_all
    from search_from_sink_correct [OF wf cr it ed bd] obtain net1 R1 where
      s: "search_from_sink it net = Inr net1" and same: "same_net net net1"
      and ed1: "edges_ok net1 [] R1" and bd1: "\<forall>k. prio net1 k \<le> 255" and sub: "R \<subseteq> R1"
      and sink: "is_sink net (fst it) \<longrightarrow> fst it \<in> R1"
      by blast
    have settled1: "\<forall>k. is_sink net1 k \<and> \<not> behind_pos (Some (fst it)) k \<longrightarrow> k \<in> R1"
    proof (intro allI impI)
      fix k assume a: "is_sink net1 k \<and> \<not> behind_pos (Some (fst it)) k"
      then have sk: "is_sink net k" and le: "k \<le> fst it"
        by (simp_all add: same_net_is_sink [OF same] behind_pos_def not_less)
      show "k \<in> R1"
      proof (cases "k = fst it")
        case True
        with sk sink show ?thesis by simp
      next
        case False
        from sk obtain p where p: "(k, p) \<in> set (m_componentIDMap net)"
          using registered_key [of net k] by (auto simp: is_sink_def)
        have "\<not> behind_pos pos k"
        proof
          assume "behind_pos pos k"
          with least p have "fst it \<le> k" by auto
          with le False show False by simp
        qed
        with sk settled sub show ?thesis by auto
      qed
    qed
    from "1.IH" [OF Cons s same_net_wf [OF same wf] same_net_components_registered [OF same cr]
        ed1 bd1 settled1]
    obtain net' R' where
      r: "sinks_loop (Some (fst it)) net1 = Inr net'" "same_net net1 net'" "edges_ok net' [] R'"
         "\<forall>k. prio net' k \<le> 255" "\<forall>k. is_sink net1 k \<longrightarrow> k \<in> R'"
      by blast
    from Cons s r same_net_trans [OF same r(2)] show ?thesis
      by (intro exI [of _ net'] exI [of _ R'])
        (simp add: sinks_loop.simps [of pos net] same_net_is_sink [OF same])
  qed
qed

subsection \<open>The order of the priorities\<close>

lemma priority_of_prio:
  "registered net k \<noteq> None \<Longrightarrow> priority_of net k = Some (prio net k)"
  by (auto simp: priority_of_def prio_def)

text \<open>
  Claim C8, amended. On a network whose components are registered under their names, whose
  connections come from registered components, which has no cycle and no path of more than
  255 connections (the components can be numbered from 0 to 255 so that the number grows
  against every connection), and in which every component passes its events on to some
  sink, \<^verbatim>\<open>assignEventPriorities\<close> ends without an error, leaves the components registered
  as they are, and gives the source of every connection into a registered component a
  priority strictly below that of the component.
\<close>

theorem priorities_grow_downstream:
  assumes cr: "components_registered net" and sr: "sources_registered net"
    and lv: "levels depth 255 net" and rs: "reaches_sink net"
  shows "\<exists>net'. assignEventPriorities net = Inr net' \<and>
           m_componentIDMap net' = m_componentIDMap net \<and>
           (\<forall>u v. connected net u v \<and> registered net v \<noteq> None \<longrightarrow>
              (\<exists>p q. priority_of net' u = Some p \<and> priority_of net' v = Some q \<and> p < q))"
proof -
  from cr have nn: "\<forall>it\<in>set (m_componentIDMap net). snd it \<noteq> None"
    by (auto simp: components_registered_def list_all_iff split: option.splits)
  from clear_priorities_ok [OF nn, of net] obtain net0 where
    c0: "clear_priorities (m_componentIDMap net) net = Inr net0"
    and m0: "m_componentIDMap net0 = m_componentIDMap net"
       "m_inConnectionMap net0 = m_inConnectionMap net"
       "m_outConnectionMap net0 = m_outConnectionMap net"
       "\<forall>c. component_name (components net0 c) = component_name (components net c)"
    and p0: "\<forall>c. getEventPriority net0 c =
        (if Some c \<in> snd ` set (m_componentIDMap net) then 255 else getEventPriority net c)"
    by blast
  from m0 have same0: "same_net net net0"
    by (simp add: same_net_def nm_def incoming_def outgoing_def)
  from wf_net_intro [OF cr sr lv] have wf: "wf_net depth net" .
  have pr0: "prio net0 k = 255" for k
  proof (cases "registered net k")
    case None
    then show ?thesis by (simp add: prio_def same_net_registered [OF same0])
  next
    case (Some c)
    then obtain p where p: "(k, p) \<in> set (m_componentIDMap net)"
      using registered_key [of net k] by auto
    from registered_entry [OF cr p] Some have "p = Some c" by auto
    with p have "Some c \<in> snd ` set (m_componentIDMap net)" by force
    with p0 Some show ?thesis by (simp add: prio_def same_net_registered [OF same0])
  qed
  have ed0: "edges_ok net0 [] {}" by (simp add: edges_ok_def pr0)
  from sinks_loop_correct [OF same_net_wf [OF same0 wf] same_net_components_registered [OF same0 cr] ed0,
      of None]
  obtain net' R' where
    r: "sinks_loop None net0 = Inr net'" and same1: "same_net net0 net'"
    and ed: "edges_ok net' [] R'" and bd: "\<forall>k. prio net' k \<le> 255"
    and sinks: "\<forall>k. is_sink net0 k \<longrightarrow> k \<in> R'"
    by (auto simp: pr0 behind_pos_def)
  from same_net_trans [OF same0 same1] have same: "same_net net net'" .
  note s = same_net_registered [OF same] same_net_connected [OF same]
  have edge: "prio net' u < prio net' w \<or> prio net' w = 255 \<and> w \<notin> R'"
    if "connected net u w" "registered net w \<noteq> None" for u w
    using ed that by (simp add: edges_ok_def s)
  have touched: "(prio net' v < 255 \<or> v \<in> R') \<and> registered net v \<noteq> None"
    if path: "(connected net)\<^sup>*\<^sup>* v t" and t: "is_sink net t" for v t
    using path
  proof (induction rule: converse_rtranclp_induct)
    case base
    from t sinks show ?case by (simp add: same_net_is_sink [OF same0] is_sink_def)
  next
    case (step y z)
    from edge [OF step.hyps(1)] step.IH bd have "prio net' y < prio net' z" by auto
    moreover from bd have "prio net' z \<le> 255" by simp
    moreover from connected_up [OF wf step.hyps(1)] have "registered net y \<noteq> None" by simp
    ultimately show ?case by simp
  qed
  have "\<exists>p q. priority_of net' u = Some p \<and> priority_of net' v = Some q \<and> p < q"
    if uv: "connected net u v" and v: "registered net v \<noteq> None" for u v
  proof -
    from v obtain p where "(v, p) \<in> set (m_componentIDMap net)"
      using registered_key [of net v] by auto
    with rs obtain t where "is_sink net t" "(connected net)\<^sup>*\<^sup>* v t"
      by (force simp: reaches_sink_def)
    from touched [OF this(2) this(1)] edge [OF uv v] have "prio net' u < prio net' v" by auto
    moreover from connected_up [OF wf uv] have "registered net u \<noteq> None" by simp
    ultimately show ?thesis
      using v by (simp add: priority_of_prio s)
  qed
  moreover from same have "m_componentIDMap net' = m_componentIDMap net"
    by (simp add: same_net_def)
  moreover from c0 r have "assignEventPriorities net = Inr net'"
    by (simp add: assignEventPriorities_def)
  ultimately show ?thesis by blast
qed

subsection \<open>The chain\<close>

lemma chain_name_eq [simp]: "(chain_name i = chain_name j) = (i = j)"
proof
  assume "chain_name i = chain_name j"
  then have "length (chain_name i) = length (chain_name j)" by simp
  then show "i = j" by (simp add: chain_name_def)
qed simp

lemma replicate_less: "(replicate i (c::char) < replicate j c) = (i < j)"
proof (induction i arbitrary: j)
  case 0
  then show ?case by (cases j) simp_all
next
  case (Suc i)
  then show ?case by (cases j) simp_all
qed

lemma chain_name_less [simp]: "(chain_name i < chain_name j) = (i < j)"
  by (simp add: chain_name_def replicate_less del: replicate.simps)

lemma map_of_chain:
  "map_of (map (\<lambda>i. (chain_name (g i), f i)) [0..<m]) k = Some v
     \<longleftrightarrow> (\<exists>i<m. k = chain_name (g i) \<and> v = f i)"
  if "inj g"
proof -
  have "distinct (map fst (map (\<lambda>i. (chain_name (g i), f i)) [0..<m]))"
    using that by (simp add: distinct_map o_def inj_on_def inj_def)
  then show ?thesis
    by auto
qed

lemma map_of_chain_None:
  "map_of (map (\<lambda>i. (chain_name (g i), f i)) [0..<m]) k = None
     \<longleftrightarrow> (\<forall>i<m. k \<noteq> chain_name (g i))"
  by (auto simp: map_of_eq_None_iff image_iff)

lemma is_chain_chain_network: "is_chain n (chain_network n)"
proof -
  let ?N = "chain_network n"
  have reg: "(registered ?N k = Some c) = (c \<le> n \<and> k = chain_name c)" for k c
  proof (cases "map_of (m_componentIDMap ?N) k")
    case None
    then have "\<forall>i<Suc n. k \<noteq> chain_name i"
      using map_of_chain_None [of "\<lambda>i. i" "\<lambda>i. Some i" "Suc n" k] by (simp add: chain_network_def)
    with None show ?thesis by (auto simp: registered_def map_find_def)
  next
    case (Some p)
    then have "\<exists>i<Suc n. k = chain_name i \<and> p = Some i"
      using map_of_chain [of "\<lambda>i. i" "\<lambda>i. Some i" "Suc n" k p] by (simp add: chain_network_def)
    with Some show ?thesis by (auto simp: registered_def map_find_def)
  qed
  have nm: "nm ?N c = chain_name c" for c
    by (simp add: nm_def chain_network_def new_component_def)
  have in0: "incoming ?N (chain_name 0) = []"
  proof -
    have "map_of (m_inConnectionMap ?N) (chain_name 0) = None"
      using map_of_chain_None [of Suc _ n "chain_name 0"] by (simp add: chain_network_def)
    then show ?thesis by (simp add: incoming_def map_find_def)
  qed
  have inS: "incoming ?N (chain_name (Suc j)) = [connection (chain_name j) (chain_name (Suc j))]"
    if "j < n" for j
  proof -
    have "map_of (m_inConnectionMap ?N) (chain_name (Suc j))
        = Some [connection (chain_name j) (chain_name (Suc j))]"
      using that
        map_of_chain [of Suc "\<lambda>i. [connection (chain_name i) (chain_name (Suc i))]" n
          "chain_name (Suc j)" "[connection (chain_name j) (chain_name (Suc j))]"]
      by (auto simp: chain_network_def)
    then show ?thesis by (simp add: incoming_def map_find_def)
  qed
  have out: "outgoing ?N (chain_name j) \<noteq> []" if "j < n" for j
  proof -
    have "map_of (m_outConnectionMap ?N) (chain_name j)
        = Some [connection (chain_name j) (chain_name (Suc j))]"
      using that
        map_of_chain [of "\<lambda>i. i" "\<lambda>i. [connection (chain_name i) (chain_name (Suc i))]" n
          "chain_name j" "[connection (chain_name j) (chain_name (Suc j))]"]
      by (auto simp: chain_network_def)
    then show ?thesis by (simp add: outgoing_def map_find_def)
  qed
  have outn: "outgoing ?N (chain_name n) = []"
  proof -
    have "map_of (m_outConnectionMap ?N) (chain_name n) = None"
      using map_of_chain_None [of "\<lambda>i. i" _ n "chain_name n"] by (simp add: chain_network_def)
    then show ?thesis by (simp add: outgoing_def map_find_def)
  qed
  from reg nm in0 inS out outn show ?thesis
    unfolding is_chain_def by blast
qed

lemma same_net_is_chain: "same_net net net' \<Longrightarrow> is_chain n net \<Longrightarrow> is_chain n net'"
  by (simp add: is_chain_def same_net_registered same_net_nm) (simp add: same_net_def)

lemma filter_absent: "k \<notin> set xs \<Longrightarrow> filter (\<lambda>x. x \<noteq> k) xs = xs"
  by (induction xs) auto

lemma erase_inserted:
  "k \<notin> set xs \<Longrightarrow> set_erase (set_insert xs k) k = xs"
proof -
  assume k: "k \<notin> set xs"
  have "filter (\<lambda>x. x \<noteq> k) (insort k xs) = xs" using k
    by (induction xs) (auto simp: filter_absent)
  with k show ?thesis by (simp add: set_erase_def set_insert_def)
qed

lemma erase_absent: "k \<notin> set xs \<Longrightarrow> set_erase xs k = xs"
  by (simp add: set_erase_def filter_absent)

text \<open>
  The search from an entry for component \<open>i\<close> of a chain walks down to component 0 or, if
  the priority is used up before, to the first entry of priority \<open>-1\<close>, which it takes for
  a marker.
\<close>

lemma chain_search:
  "is_chain n net \<Longrightarrow> i \<le> n \<Longrightarrow> \<forall>j\<le>i. Some j \<notin> set visiting \<Longrightarrow>
   \<exists>net'. search_loop net (\<lparr>search_priority = q, pComponent = Some i\<rparr> # rest) visiting
             = search_loop net' rest visiting \<and>
          same_net net net' \<and>
          (\<forall>c. getEventPriority net' c =
                (if c \<le> i \<and> int (i - c) \<le> q then min (getEventPriority net c) (q - int (i - c))
                 else getEventPriority net c))"
proof (induction i arbitrary: q net rest visiting)
  case 0
  let ?b = "\<lparr>search_priority = q, pComponent = Some 0\<rparr>"
  show ?case
  proof (cases "q < 0")
    case True
    from "0.prems"(3) have "set_erase visiting (Some 0) = visiting"
      by (simp add: erase_absent)
    with True show ?thesis
      by (intro exI [of _ net]) (simp add: same_net_refl)
  next
    case False
    from "0.prems"(1) have names: "\<And>k c'. registered net k = Some c' \<Longrightarrow> nm net c' = k"
      and reg: "registered net (nm net 0) = Some 0"
      and inc: "incoming net (nm net 0) = []"
      by (simp_all add: is_chain_def)
    have ups: "registered net u \<noteq> None \<and> registered net u \<notin> set (set_insert visiting (Some 0))"
      if "connected net u (nm net 0)" for u
      using that inc by (simp add: connected_def)
    from visit_basic [OF names _ reg ups, of ?b rest] inc obtain net1 where
      v: "visit net ?b rest visiting = Inr (net1, ?b\<lparr>search_priority := - 1\<rparr> # rest, set_insert visiting (Some 0))"
      and same: "same_net net net1"
      and gp: "\<forall>c'. getEventPriority net1 c' =
                 (if c' = 0 then min (getEventPriority net 0) q else getEventPriority net c')"
      by auto
    from "0.prems"(3) have "set_erase (set_insert visiting (Some 0)) (Some 0) = visiting"
      by (simp add: erase_inserted)
    with False v have "search_loop net (?b # rest) visiting = search_loop net1 rest visiting"
      by simp
    with same gp False show ?thesis
      by (intro exI [of _ net1]) auto
  qed
next
  case (Suc i)
  let ?b = "\<lparr>search_priority = q, pComponent = Some (Suc i)\<rparr>"
  show ?case
  proof (cases "q < 0")
    case True
    from Suc.prems(3) have "set_erase visiting (Some (Suc i)) = visiting"
      by (simp add: erase_absent)
    with True show ?thesis
      by (intro exI [of _ net]) (simp add: same_net_refl)
  next
    case False
    from Suc.prems(1,2) have names: "\<And>k c'. registered net k = Some c' \<Longrightarrow> nm net c' = k"
      and reg: "registered net (nm net (Suc i)) = Some (Suc i)"
      and inc: "incoming net (nm net (Suc i)) = [connection (chain_name i) (chain_name (Suc i))]"
      and ri: "registered net (chain_name i) = Some i"
      by (simp_all add: is_chain_def)
    let ?vis = "set_insert visiting (Some (Suc i))"
    from Suc.prems(3) have nv: "\<forall>j\<le>i. Some j \<notin> set ?vis"
      by (simp add: set_insert_elements)
    have ups: "registered net u \<noteq> None \<and> registered net u \<notin> set ?vis"
      if "connected net u (nm net (Suc i))" for u
    proof -
      from that inc have "u = chain_name i" by (simp add: connected_def connection_def)
      with ri nv show ?thesis by simp
    qed
    let ?m = "?b\<lparr>search_priority := - 1\<rparr>"
    from visit_basic [OF names _ reg ups, of ?b rest] inc ri obtain net1 where
      v: "visit net ?b rest visiting =
            Inr (net1, \<lparr>search_priority = q - 1, pComponent = Some i\<rparr> # ?m # rest, ?vis)"
      and same: "same_net net net1"
      and gp: "\<forall>c'. getEventPriority net1 c' =
                 (if c' = Suc i then min (getEventPriority net (Suc i)) q else getEventPriority net c')"
      by (auto simp: connection_def)
    from Suc.prems(2) have "i \<le> n" by simp
    from Suc.IH [OF same_net_is_chain [OF same Suc.prems(1)] this nv, of "q - 1" "?m # rest"]
    obtain net2 where
      s2: "search_loop net1 (\<lparr>search_priority = q - 1, pComponent = Some i\<rparr> # ?m # rest) ?vis
             = search_loop net2 (?m # rest) ?vis"
      and same2: "same_net net1 net2"
      and gp2: "\<forall>c. getEventPriority net2 c =
                (if c \<le> i \<and> int (i - c) \<le> q - 1
                 then min (getEventPriority net1 c) (q - 1 - int (i - c))
                 else getEventPriority net1 c)"
      by blast
    from Suc.prems(3) have "set_erase ?vis (Some (Suc i)) = visiting"
      by (simp add: erase_inserted)
    then have "search_loop net2 (?m # rest) ?vis = search_loop net2 rest visiting"
      by simp
    with False v s2 have "search_loop net (?b # rest) visiting = search_loop net2 rest visiting"
      by simp
    moreover have "getEventPriority net2 c =
        (if c \<le> Suc i \<and> int (Suc i - c) \<le> q
         then min (getEventPriority net c) (q - int (Suc i - c))
         else getEventPriority net c)" for c
    proof (cases "c \<le> i")
      case True
      then have e: "int (Suc i - c) = int (i - c) + 1" and ne: "c \<noteq> Suc i" by simp_all
      have a: "getEventPriority net1 c = getEventPriority net c" using gp ne by simp
      have b: "(int (i - c) \<le> q - 1) = (int (Suc i - c) \<le> q)" unfolding e by auto
      have d: "q - 1 - int (i - c) = q - int (Suc i - c)" unfolding e by simp
      have g2: "getEventPriority net2 c =
                (if c \<le> i \<and> int (i - c) \<le> q - 1
                 then min (getEventPriority net1 c) (q - 1 - int (i - c))
                 else getEventPriority net1 c)"
        using gp2 by blast
      show ?thesis unfolding g2 a b d using True by simp
    next
      case False
      with gp2 have g2: "getEventPriority net2 c = getEventPriority net1 c" by simp
      show ?thesis
      proof (cases "c = Suc i")
        case True
        with gp \<open>\<not> q < 0\<close> show ?thesis unfolding g2 by simp
      next
        case ne: False
        with False have "\<not> c \<le> Suc i" by simp
        with gp ne show ?thesis unfolding g2 by simp
      qed
    qed
    ultimately show ?thesis
      using same_net_trans [OF same same2] by (intro exI [of _ net2]) simp
  qed
qed

lemma filter_from: "filter (\<lambda>j. i \<le> j) [0..<m] = [i..<m]"
  by (induction m) auto

lemma behind_chain_pos: "behind_pos (chain_pos i) (chain_name j) = (i \<le> j)"
  by (cases i) (auto simp: behind_pos_def chain_pos_def)

lemma entries_after_chain:
  "entries_after (map (\<lambda>j. (chain_name j, Some j)) [0..<m]) (chain_pos i)
     = map (\<lambda>j. (chain_name j, Some j)) [i..<m]"
  by (simp add: entries_after_def filter_map o_def behind_chain_pos filter_from)

text \<open>
  The second loop on a chain, from the entry of component \<open>i\<close> on: only the last component
  is a sink, and the search from it gives component \<open>c\<close> the priority \<open>255 - (n - c)\<close> as
  long as this is not negative.
\<close>

lemma chain_sinks_loop:
  "is_chain n net \<Longrightarrow> m_componentIDMap net = map (\<lambda>j. (chain_name j, Some j)) [0..<Suc n] \<Longrightarrow>
   k = Suc n - i \<Longrightarrow> i \<le> Suc n \<Longrightarrow>
   \<exists>net'. sinks_loop (chain_pos i) net = Inr net' \<and> same_net net net' \<and>
      (\<forall>c. getEventPriority net' c =
            (if i \<le> n \<and> c \<le> n \<and> int (n - c) \<le> 255
             then min (getEventPriority net c) (255 - int (n - c))
             else getEventPriority net c))"
proof (induction k arbitrary: i net)
  case 0
  then have i: "i = Suc n" by simp
  have "entries_after (m_componentIDMap net) (chain_pos i)
      = map (\<lambda>j. (chain_name j, Some j)) [i..<Suc n]"
    unfolding "0.prems"(2) by (rule entries_after_chain)
  with i have "entries_after (m_componentIDMap net) (chain_pos i) = []" by simp
  with i show ?case
    by (intro exI [of _ net]) (simp add: sinks_loop.simps [of "chain_pos i" net] same_net_refl)
next
  case (Suc k)
  then have i: "i \<le> n" by simp
  let ?it = "(chain_name i, Some i)"
  have "entries_after (m_componentIDMap net) (chain_pos i)
      = map (\<lambda>j. (chain_name j, Some j)) [i..<Suc n]"
    unfolding Suc.prems(2) by (rule entries_after_chain)
  moreover from i have "[i..<Suc n] = i # [Suc i..<Suc n]" by (simp add: upt_conv_Cons)
  ultimately have
    ea: "entries_after (m_componentIDMap net) (chain_pos i)
           = ?it # map (\<lambda>j. (chain_name j, Some j)) [Suc i..<Suc n]"
    by simp
  have pos: "Some (fst ?it) = chain_pos (Suc i)" by (simp add: chain_pos_def)
  obtain outConns outMap where
    mi: "map_index (m_outConnectionMap net) (chain_name i) [] = (outConns, outMap)"
    by (cases "map_index (m_outConnectionMap net) (chain_name i) []")
  define net1 where "net1 = net\<lparr>m_outConnectionMap := outMap\<rparr>"
  from map_index_lookup [OF mi] have oc: "outConns = outgoing net (chain_name i)"
    and om: "\<And>k. (case map_find outMap k of None \<Rightarrow> [] | Some x \<Rightarrow> x) = outgoing net k"
    by (simp_all add: outgoing_def)
  have same1: "same_net net net1"
    by (simp add: same_net_def net1_def nm_def incoming_def outgoing_def om [unfolded outgoing_def])
  have g1: "getEventPriority net1 = getEventPriority net"
    by (simp add: fun_eq_iff getEventPriority_def net1_def)
  have sf: "search_from_sink ?it net =
      (if outConns = []
       then search_loop net1 [\<lparr>search_priority = DFN_MAX_PATHLENGTH, pComponent = Some i\<rparr>] []
       else Inr net1)"
    by (simp add: search_from_sink_def mi Let_def net1_def del: search_loop.simps)
  from same_net_is_chain [OF same1 Suc.prems(1)] have ch1: "is_chain n net1" .
  from same1 Suc.prems(2) have id1: "m_componentIDMap net1 = map (\<lambda>j. (chain_name j, Some j)) [0..<Suc n]"
    by (simp add: same_net_def)
  from Suc.prems(3) have k: "k = Suc n - Suc i" by simp
  show ?case
  proof (cases "i < n")
    case True
    with Suc.prems(1) oc have "outConns \<noteq> []" by (simp add: is_chain_def)
    with sf have s: "search_from_sink ?it net = Inr net1" by simp
    from True have "Suc i \<le> Suc n" by simp
    from Suc.IH [OF ch1 id1 k this] obtain net' where
      r: "sinks_loop (chain_pos (Suc i)) net1 = Inr net'" "same_net net1 net'"
         "\<forall>c. getEventPriority net' c =
            (if Suc i \<le> n \<and> c \<le> n \<and> int (n - c) \<le> 255
             then min (getEventPriority net1 c) (255 - int (n - c))
             else getEventPriority net1 c)"
      by blast
    from ea s r(1) pos have "sinks_loop (chain_pos i) net = Inr net'"
      by (simp add: sinks_loop.simps [of "chain_pos i" net])
    with r(3) True same_net_trans [OF same1 r(2)] show ?thesis
      by (intro exI [of _ net']) (simp add: g1)
  next
    case False
    with i have in': "i = n" by simp
    with Suc.prems(1) oc have "outConns = []" by (simp add: is_chain_def)
    with sf have s: "search_from_sink ?it net =
        search_loop net1 [\<lparr>search_priority = 255, pComponent = Some i\<rparr>] []"
      by (simp add: DFN_MAX_PATHLENGTH_def del: search_loop.simps)
    from chain_search [OF ch1 i, of "[]" 255 "[]"] obtain net2 where
      c2: "search_loop net1 [\<lparr>search_priority = 255, pComponent = Some i\<rparr>] [] = search_loop net2 [] []"
      and same2: "same_net net1 net2"
      and g2: "\<forall>c. getEventPriority net2 c =
                (if c \<le> i \<and> int (i - c) \<le> 255 then min (getEventPriority net1 c) (255 - int (i - c))
                 else getEventPriority net1 c)"
      by auto
    from s c2 have s2: "search_from_sink ?it net = Inr net2" by simp
    from same2 id1 have id2: "m_componentIDMap net2 = map (\<lambda>j. (chain_name j, Some j)) [0..<Suc n]"
      by (simp add: same_net_def)
    from in' have "Suc i \<le> Suc n" by simp
    from Suc.IH [OF same_net_is_chain [OF same2 ch1] id2 k this] obtain net' where
      r: "sinks_loop (chain_pos (Suc i)) net2 = Inr net'" "same_net net2 net'"
         "\<forall>c. getEventPriority net' c =
            (if Suc i \<le> n \<and> c \<le> n \<and> int (n - c) \<le> 255
             then min (getEventPriority net2 c) (255 - int (n - c))
             else getEventPriority net2 c)"
      by blast
    from ea s2 r(1) pos have "sinks_loop (chain_pos i) net = Inr net'"
      by (simp add: sinks_loop.simps [of "chain_pos i" net])
    with r(3) g2 in' same_net_trans [OF same1 same_net_trans [OF same2 r(2)]] show ?thesis
      by (intro exI [of _ net']) (simp add: g1)
  qed
qed

lemma chain_priorities:
  "\<exists>net'. assignEventPriorities (chain_network n) = Inr net' \<and>
      (\<forall>c\<le>n. priority_of net' (chain_name c)
                = Some (if int (n - c) \<le> 255 then 255 - int (n - c) else 255))"
proof -
  let ?N = "chain_network n"
  let ?M = "map (\<lambda>j. (chain_name j, Some j)) [0..<Suc n]"
  have idm: "m_componentIDMap ?N = ?M" by (simp add: chain_network_def)
  have "\<forall>it\<in>set (m_componentIDMap ?N). snd it \<noteq> None"
    unfolding idm by auto
  from clear_priorities_ok [OF this, of ?N] obtain net0 where
    c0: "clear_priorities (m_componentIDMap ?N) ?N = Inr net0"
    and m0: "m_componentIDMap net0 = m_componentIDMap ?N"
       "m_inConnectionMap net0 = m_inConnectionMap ?N"
       "m_outConnectionMap net0 = m_outConnectionMap ?N"
       "\<forall>c. component_name (components net0 c) = component_name (components ?N c)"
    and p0: "\<forall>c. getEventPriority net0 c =
        (if Some c \<in> snd ` set (m_componentIDMap ?N) then 255 else getEventPriority ?N c)"
    by blast
  from m0 have same0: "same_net ?N net0"
    by (simp add: same_net_def nm_def incoming_def outgoing_def)
  have g0: "getEventPriority net0 c = 255" if "c \<le> n" for c
  proof -
    from that have "(chain_name c, Some c) \<in> set ?M" by auto
    then have "Some c \<in> snd ` set ?M" by force
    with p0 show ?thesis unfolding idm by simp
  qed
  from same_net_is_chain [OF same0 is_chain_chain_network] have ch0: "is_chain n net0" .
  from m0(1) idm have id0: "m_componentIDMap net0 = ?M" by simp
  from chain_sinks_loop [OF ch0 id0, of "Suc n" 0] obtain net' where
    r: "sinks_loop None net0 = Inr net'" and same1: "same_net net0 net'"
    and g: "\<forall>c. getEventPriority net' c =
            (if c \<le> n \<and> int (n - c) \<le> 255
             then min (getEventPriority net0 c) (255 - int (n - c))
             else getEventPriority net0 c)"
    by (auto simp: chain_pos_def)
  from same_net_is_chain [OF same1 ch0] have ch: "is_chain n net'" .
  have "priority_of net' (chain_name c) = Some (if int (n - c) \<le> 255 then 255 - int (n - c) else 255)"
    if c: "c \<le> n" for c
  proof -
    from ch c have "registered net' (chain_name c) = Some c" by (simp add: is_chain_def)
    then have "priority_of net' (chain_name c) = Some (getEventPriority net' c)"
      by (simp add: priority_of_def)
    moreover from g c have "getEventPriority net' c =
        (if int (n - c) \<le> 255 then min (getEventPriority net0 c) (255 - int (n - c))
         else getEventPriority net0 c)"
      by simp
    moreover have "min (255::int) (255 - int (n - c)) = 255 - int (n - c)" by simp
    ultimately show ?thesis unfolding g0 [OF c] by (simp only: if_cancel split: if_splits)
  qed
  moreover from c0 r have "assignEventPriorities ?N = Inr net'"
    by (simp add: assignEventPriorities_def)
  ultimately show ?thesis by blast
qed

lemma chain_connected:
  "j < n \<Longrightarrow> connected (chain_network n) (chain_name j) (chain_name (Suc j))"
  using is_chain_chain_network [of n] by (simp add: is_chain_def connected_def connection_def)

lemma chain_components_registered: "components_registered (chain_network n)"
proof -
  have "sorted_wrt (\<lambda>i j. chain_name i < chain_name j) [0..<Suc n]"
    by (simp del: upt_Suc)
  then have "sorted_wrt (<) (map fst (m_componentIDMap (chain_network n)))"
    by (simp add: chain_network_def sorted_wrt_map o_def del: upt_Suc)
  then show ?thesis
    by (simp add: components_registered_def list_all_iff)
      (auto simp: chain_network_def new_component_def)
qed

lemma chain_sources_registered: "sources_registered (chain_network n)"
proof -
  have "registered (chain_network n) (chain_name i) \<noteq> None" if "i < n" for i
    using that is_chain_chain_network [of n] by (simp add: is_chain_def)
  then show ?thesis
    by (auto simp: sources_registered_def list_all_iff chain_network_def connection_def)
qed

lemma chain_levels: "levels (chain_depth n) n (chain_network n)"
  by (auto simp: levels_def list_all_iff chain_network_def connection_def chain_depth_def chain_name_def)

lemma chain_reaches_sink: "reaches_sink (chain_network n)"
proof -
  let ?N = "chain_network n"
  have sink: "is_sink ?N (chain_name n)"
    using is_chain_chain_network [of n] by (simp add: is_sink_def is_chain_def)
  have path: "(connected ?N)\<^sup>*\<^sup>* (chain_name (n - d)) (chain_name n)" for d
  proof (induction d)
    case 0
    then show ?case by simp
  next
    case (Suc d)
    show ?case
    proof (cases "Suc d \<le> n")
      case True
      then have "Suc (n - Suc d) = n - d" "n - Suc d < n" by simp_all
      with chain_connected [of "n - Suc d" n]
      have "connected ?N (chain_name (n - Suc d)) (chain_name (n - d))" by simp
      with Suc.IH show ?thesis by (rule converse_rtranclp_into_rtranclp [rotated])
    next
      case False
      then have "n - Suc d = n - d" by simp
      with Suc.IH show ?thesis by simp
    qed
  qed
  have "\<exists>s. is_sink ?N s \<and> (connected ?N)\<^sup>*\<^sup>* (chain_name i) s" if "i \<le> n" for i
  proof -
    from that have "n - (n - i) = i" by simp
    with path [of "n - i"] sink show ?thesis by auto
  qed
  then show ?thesis
    by (auto simp: reaches_sink_def chain_network_def)
qed

text \<open>
  Claim C8, as stated: on an acyclic network in which every component reaches a sink, the
  source of every connection gets a priority strictly below that of the destination. This
  fails on the chain of 257 components: the search from the sink hands component 1 the
  priority 0 and pushes component 0 with the priority \<open>-1\<close>, which the next turn of the
  loop takes for a marker; so component 0 keeps the priority 255 of the first loop, above
  the priority 0 of component 1 that it sends to.
\<close>

theorem long_chain_counterexample:
  "components_registered (chain_network 256) \<and>
   sources_registered (chain_network 256) \<and>
   levels (chain_depth 256) 256 (chain_network 256) \<and>
   reaches_sink (chain_network 256) \<and>
   connected (chain_network 256) (chain_name 0) (chain_name 1) \<and>
   (\<exists>net'. assignEventPriorities (chain_network 256) = Inr net' \<and>
      priority_of net' (chain_name 0) = Some 255 \<and>
      priority_of net' (chain_name 1) = Some 0)"
proof -
  from chain_priorities [of 256] obtain net' where
    a: "assignEventPriorities (chain_network 256) = Inr net'"
    and p: "\<forall>c\<le>256. priority_of net' (chain_name c)
                = Some (if int (256 - c) \<le> 255 then 255 - int (256 - c) else 255)"
    by blast
  from p have "priority_of net' (chain_name 0) = Some 255" "priority_of net' (chain_name 1) = Some 0"
    by simp_all
  with a have "\<exists>net'. assignEventPriorities (chain_network 256) = Inr net' \<and>
      priority_of net' (chain_name 0) = Some 255 \<and>
      priority_of net' (chain_name 1) = Some 0"
    by blast
  moreover have "connected (chain_network 256) (chain_name 0) (chain_name 1)"
    using chain_connected [of 0 256] by simp
  ultimately show ?thesis
    using chain_components_registered [of 256] chain_sources_registered [of 256]
      chain_levels [of 256] chain_reaches_sink [of 256]
    by (intro conjI)
qed

text \<open>
  The triangle \<open>a \<rightarrow> b\<close>, \<open>b \<rightarrow> c\<close>, \<open>a \<rightarrow> c\<close>: the priority of \<open>a\<close> comes out below that of \<open>c\<close>.
\<close>

theorem priorities_grow_downstream_witness:
  "components_registered triangle_network \<and> sources_registered triangle_network \<and>
   levels triangle_depth 255 triangle_network \<and> reaches_sink triangle_network \<and>
   connected triangle_network ''a'' ''c'' \<and> registered triangle_network ''c'' = Some 2 \<and>
   (\<exists>net'. assignEventPriorities triangle_network = Inr net' \<and>
      (\<exists>p q. priority_of net' ''a'' = Some p \<and> priority_of net' ''c'' = Some q \<and> p < q))"
proof -
  have cr: "components_registered triangle_network"
    by (simp add: components_registered_def triangle_network_def new_component_def)
  have sr: "sources_registered triangle_network"
    by (simp add: sources_registered_def triangle_network_def registered_def map_find_def
        connection_def)
  have lv: "levels triangle_depth 255 triangle_network"
    by (simp add: levels_def triangle_network_def triangle_depth_def connection_def)
  have ac: "connected triangle_network ''a'' ''c''"
    and bc: "connected triangle_network ''b'' ''c''"
    by (simp_all add: connected_def incoming_def map_find_def triangle_network_def connection_def)
  have c: "registered triangle_network ''c'' = Some 2"
    by (simp add: registered_def map_find_def triangle_network_def)
  have "outgoing triangle_network ''c'' = []"
    by (simp add: outgoing_def map_find_def triangle_network_def)
  with c have sink: "is_sink triangle_network ''c''"
    by (simp add: is_sink_def)
  have rs: "reaches_sink triangle_network"
    unfolding reaches_sink_def
  proof
    fix it assume "it \<in> set (m_componentIDMap triangle_network)"
    then consider "fst it = ''a''" | "fst it = ''b''" | "fst it = ''c''"
      by (auto simp: triangle_network_def)
    then have "(connected triangle_network)\<^sup>*\<^sup>* (fst it) ''c''"
      using ac bc by cases auto
    with sink show "\<exists>s. is_sink triangle_network s \<and> (connected triangle_network)\<^sup>*\<^sup>* (fst it) s"
      by blast
  qed
  from priorities_grow_downstream [OF cr sr lv rs] ac c
  have "\<exists>net'. assignEventPriorities triangle_network = Inr net' \<and>
      (\<exists>p q. priority_of net' ''a'' = Some p \<and> priority_of net' ''c'' = Some q \<and> p < q)"
    by fastforce
  with cr sr lv rs ac c show ?thesis by (intro conjI)
qed

text \<open>The priorities that the triangle gets.\<close>

lemma triangle_priorities:
  "\<exists>net'. assignEventPriorities triangle_network = Inr net' \<and>
      priority_of net' ''a'' = Some 253 \<and> priority_of net' ''b'' = Some 254 \<and>
      priority_of net' ''c'' = Some 255"
  by (simp add: assignEventPriorities_def search_from_sink_def entries_after_def
      behind_pos_def visit_def map_index_def map_find_def map_insert_def set_insert_def set_erase_def
      setEventPriority_def getEventPriority_def DFN_MAX_PATHLENGTH_def connection_def
      new_component_def priority_of_def registered_def Let_def triangle_network_def)

text \<open>
  The hypothesis that a component stands under its own name is needed: where \<open>k2\<close> is a
  second name of the component \<open>k1\<close>, the search looks for the incoming connections under
  \<open>k1\<close> and never comes to \<open>u\<close>, which sends to \<open>k2\<close>.
\<close>

lemma alias_priorities:
  "\<exists>net'. assignEventPriorities alias_network = Inr net' \<and>
      connected alias_network ''u'' ''k2'' \<and>
      priority_of net' ''u'' = Some 255 \<and> priority_of net' ''k2'' = Some 255"
  by (simp add: assignEventPriorities_def search_from_sink_def entries_after_def
      behind_pos_def visit_def map_index_def map_find_def map_insert_def set_insert_def set_erase_def
      setEventPriority_def getEventPriority_def DFN_MAX_PATHLENGTH_def connection_def
      new_component_def priority_of_def registered_def Let_def
      alias_network_def connected_def incoming_def)

end
